theory Spec2Isabelle
  imports Main "HOL-Library.Word"
begin

unbundle bit_operations_syntax

section \<open>The multicast ring-buffer channel of \<^verbatim>\<open>generic/multicast.go\<close>\<close>

text \<open>
  The embedding follows the Go source function by function. Every operation is one atomic
  transition on the channel record (a sequentially consistent interleaving of whole
  operations; \<^verbatim>\<open>Send\<close> and \<^verbatim>\<open>Range\<close> are also available in the pieces between which other
  goroutines can run). What an operation can do besides returning is a value:
  \<^item> a Go panic (an explicit \<^verbatim>\<open>panic\<close> or an index out of range) is \<open>Inl p\<close>;
  \<^item> a spin loop that never exits unless another goroutine changes the state is the value
    \<open>None\<close> of a \<^theory_text>\<open>partial_function (option)\<close>.
  \<^verbatim>\<open>uint64\<close> and \<^verbatim>\<open>int64\<close> are \<open>64 word\<close> (wrapping arithmetic; \<^verbatim>\<open>int64\<close> is read
  with the signed operations), \<^verbatim>\<open>uint32\<close> is \<open>32 word\<close>. The padding fields carry no data
  and \<^verbatim>\<open>receivers\<close> (a condition variable) holds no state of the protocol: both are left out.
  A \<^verbatim>\<open>time.Time\<close> is an \<open>int\<close> (nanoseconds on the wall clock, the zero \<^verbatim>\<open>Time\<close> being 0), and
  every reading of the clock is a parameter of the operation that reads it.
\<close>

subsection \<open>Constants and data\<close>

type_synonym u64 = "64 word"
type_synonym i64 = "64 word"
type_synonym u32 = "32 word"

text \<open>Activity of the committer (\<^verbatim>\<open>resting\<close>, \<^verbatim>\<open>working\<close>).\<close>

datatype committer_activity = resting | working

text \<open>Activity of the endpoint table (\<^verbatim>\<open>idling\<close>, \<^verbatim>\<open>enumerating\<close>, \<^verbatim>\<open>creating\<close>).\<close>

datatype endpoints_activity = idling | enumerating | creating

text \<open>State of endpoint and channel (\<^verbatim>\<open>active\<close>, \<^verbatim>\<open>canceled\<close>, \<^verbatim>\<open>closed\<close>: 0, 1, 2).\<close>

datatype state = active | canceled | closed

definition parked :: u64 where
  "parked = - 1"

definition ReplayAll :: u64 where
  "ReplayAll = - 1"

text \<open>\<^verbatim>\<open>ChannelError\<close> is a string; a Go \<^verbatim>\<open>error\<close> is such a value or \<^verbatim>\<open>nil\<close>.\<close>

type_synonym go_error = "string option"

definition ErrOutOfEndpoints :: go_error where
  "ErrOutOfEndpoints = Some ''out of endpoints''"

datatype panic =
    IndexOutOfRange
  | ClockFailure
  | CommitRangeError
  | CommitSwapError
  | DataAfterClose

text \<open>
  \<^verbatim>\<open>EndpointFoo\<close>. The embedded \<^verbatim>\<open>*ChanFoo\<close> is \<open>chanRef\<close>: there is one channel, so the
  pointer is either \<^verbatim>\<open>nil\<close> (\<open>False\<close>) or that channel (\<open>True\<close>). An endpoint is named by its
  index in the table of its channel.
\<close>

record EndpointFoo =
  chanRef :: bool
  cursor :: u64
  endpointState :: state
  lastActive :: int
  endpointClosed :: u64

record endpointsFoo =
  entry :: "EndpointFoo list"
  len :: u32
  endpointsActivity :: endpoints_activity

text \<open>
  \<^verbatim>\<open>ChanFoo\<close>, for any element type with a zero value. The fields \<^verbatim>\<open>begin\<close>, \<^verbatim>\<open>end\<close>, \<^verbatim>\<open>write\<close> and
  \<^verbatim>\<open>mod\<close> are \<open>begin_c\<close>, \<open>end_c\<close>, \<open>write_c\<close> and \<open>mod_c\<close> here.
\<close>

record 'a ChanFoo =
  buffer :: "'a list"
  begin_c :: u64
  end_c :: u64
  commit :: u64
  mod_c :: u64
  endpoints :: endpointsFoo
  err :: go_error
  channelState :: state
  write_c :: u64
  start :: int
  written :: "i64 list"
  committerActivity :: committer_activity

type_synonym 'r res = "(panic + 'r) option"

subsection \<open>\<^verbatim>\<open>NewChanFoo\<close>\<close>

definition zeroEndpoint :: EndpointFoo where
  "zeroEndpoint = \<lparr>chanRef = False, cursor = 0, endpointState = active, lastActive = 0,
     endpointClosed = 0\<rparr>"

text \<open>
  \<^verbatim>\<open>size := uint64(1) << uint(math.Ceil(math.Log2(float64(bufferCapacity))))\<close>. The shift
  count is computed in floating point by the \<^verbatim>\<open>math\<close> package; it is the parameter \<open>lg\<close>
  here. A Go shift by 64 or more gives 0, as \<open>push_bit\<close> does on a word.
  \<^verbatim>\<open>make\<close> panics on a negative length, so \<open>endpointCapacity\<close> is a \<open>nat\<close>.
\<close>

definition NewChanFoo :: "nat \<Rightarrow> nat \<Rightarrow> int \<Rightarrow> ('a::zero) ChanFoo" where
  "NewChanFoo lg endpointCapacity now =
     (let size = (push_bit lg 1 :: u64) in
      \<lparr>buffer = replicate (unat size) 0,
       begin_c = 0,
       end_c = size,
       commit = 0,
       mod_c = size - 1,
       endpoints = \<lparr>entry = replicate endpointCapacity zeroEndpoint, len = 0,
                    endpointsActivity = idling\<rparr>,
       err = None,
       channelState = active,
       write_c = 0,
       start = now,
       written = replicate (unat size) 0,
       committerActivity = resting\<rparr>)"

subsection \<open>\<^verbatim>\<open>endpointsFoo.Access\<close>\<close>

text \<open>
  \<^verbatim>\<open>for !CompareAndSwap(&e.endpointsActivity, idling, enumerating) { Gosched() }\<close>: the loop
  leaves at once when the table idles and spins otherwise.
\<close>

partial_function (option) Access_spin :: "'a ChanFoo \<Rightarrow> 'a ChanFoo option" where
  "Access_spin c =
     (if endpointsActivity (endpoints c) = idling
      then Some (c\<lparr>endpoints := (endpoints c)\<lparr>endpointsActivity := enumerating\<rparr>\<rparr>)
      else Access_spin c)"

definition release :: "'a ChanFoo \<Rightarrow> 'a ChanFoo" where
  "release c = c\<lparr>endpoints := (endpoints c)\<lparr>endpointsActivity := idling\<rparr>\<rparr>"

text \<open>
  The closure passed to \<^verbatim>\<open>Access\<close> works on the channel it captures and leaves a value in a
  captured variable; the result is the channel, that value, and \<^verbatim>\<open>!contention\<close> (true when
  the first compare-and-swap succeeded, the only way out in a sequential run).
\<close>

definition Access ::
  "'a ChanFoo \<Rightarrow> ('a ChanFoo \<Rightarrow> panic + 'a ChanFoo \<times> 'r) \<Rightarrow> ('a ChanFoo \<times> 'r \<times> bool) res" where
  "Access c access =
     Option.bind (Access_spin c) (\<lambda>c1.
       Some (case access c1 of
               Inl p \<Rightarrow> Inl p
             | Inr (c2, r) \<Rightarrow> Inr (release c2, r, True)))"

subsection \<open>\<^verbatim>\<open>Close\<close> and \<^verbatim>\<open>Closed\<close>\<close>

definition closeEndpoint :: "EndpointFoo \<Rightarrow> EndpointFoo" where
  "closeEndpoint e = (if endpointState e = active then e\<lparr>endpointState := closed\<rparr> else e)"

definition Close_access :: "'a ChanFoo \<Rightarrow> panic + 'a ChanFoo \<times> unit" where
  "Close_access c =
     (let es = entry (endpoints c); n = unat (len (endpoints c)) in
      if length es < n then Inl IndexOutOfRange
      else Inr (c\<lparr>endpoints := (endpoints c)\<lparr>entry := map closeEndpoint (take n es) @ drop n es\<rparr>\<rparr>, ()))"

definition Close :: "'a ChanFoo \<Rightarrow> go_error \<Rightarrow> 'a ChanFoo res" where
  "Close c e =
     (if channelState c = active
      then Option.bind (Access (c\<lparr>channelState := closed, err := e\<rparr>) Close_access) (\<lambda>r.
             Some (case r of Inl p \<Rightarrow> Inl p | Inr (c', _) \<Rightarrow> Inr c'))
      else Some (Inr c))"

definition Closed :: "'a ChanFoo \<Rightarrow> bool" where
  "Closed c = (channelState c = closed)"

subsection \<open>\<^verbatim>\<open>slideBuffer\<close>\<close>

text \<open>
  The scan of the closure: \<^verbatim>\<open>slowestCursor\<close> starts at \<^verbatim>\<open>parked\<close> and takes every smaller
  cursor of the entries below \<^verbatim>\<open>len\<close>.
\<close>

definition slowest :: "EndpointFoo list \<Rightarrow> u64" where
  "slowest es = foldl (\<lambda>s e. if cursor e < s then cursor e else s) parked es"

definition slideBuffer_access :: "'a ChanFoo \<Rightarrow> panic + 'a ChanFoo \<times> u64" where
  "slideBuffer_access c =
     (let es = entry (endpoints c); n = unat (len (endpoints c)) in
      if length es < n then Inl IndexOutOfRange
      else
        let slowestCursor = slowest (take n es) in
        if begin_c c < slowestCursor \<and> slowestCursor \<le> end_c c
        then (if mod_c c < 16
              then Inr (c\<lparr>begin_c := begin_c c + 1, end_c := end_c c + 1\<rparr>, slowestCursor)
              else Inr (c\<lparr>begin_c := slowestCursor, end_c := slowestCursor + mod_c c + 1\<rparr>,
                        slowestCursor))
        else Inr (c, parked))"

text \<open>
  The result is \<^verbatim>\<open>more\<close>. \<^verbatim>\<open>runtime.Gosched()\<close> changes nothing of the channel.
\<close>

definition slideBuffer :: "'a ChanFoo \<Rightarrow> ('a ChanFoo \<times> bool) res" where
  "slideBuffer c =
     Option.bind (Access c slideBuffer_access) (\<lambda>r.
       Some (case r of
               Inl p \<Rightarrow> Inl p
             | Inr (c', slowestCursor, spinlock) \<Rightarrow>
                 if slowestCursor = parked \<and> channelState c' \<noteq> active
                 then Inr (c', False)
                 else Inr (c', True)))"

subsection \<open>\<^verbatim>\<open>FastSend\<close>\<close>

text \<open>
  \<^verbatim>\<open>for c.commit == c.end { if !c.slideBuffer() { return } }\<close>: the flag of the result says
  whether the loop was left by its condition (\<open>True\<close>) or by the \<^verbatim>\<open>return\<close> (\<open>False\<close>).
\<close>

partial_function (option) FastSend_full :: "'a ChanFoo \<Rightarrow> ('a ChanFoo \<times> bool) res" where
  "FastSend_full c =
     (if commit c = end_c c
      then Option.bind (slideBuffer c) (\<lambda>r.
             case r of
               Inl p \<Rightarrow> Some (Inl p)
             | Inr (c', more_data) \<Rightarrow> if more_data then FastSend_full c' else Some (Inr (c', False)))
      else Some (Inr (c, True)))"

definition FastSend :: "'a ChanFoo \<Rightarrow> 'a \<Rightarrow> 'a ChanFoo res" where
  "FastSend c v =
     Option.bind (FastSend_full c) (\<lambda>r.
       Some (case r of
               Inl p \<Rightarrow> Inl p
             | Inr (c', go) \<Rightarrow>
                 if \<not> go then Inr c'
                 else
                   let i = unat (commit c' AND mod_c c') in
                   if length (buffer c') \<le> i then Inl IndexOutOfRange
                   else Inr (c'\<lparr>buffer := (buffer c')[i := v], commit := commit c' + 1\<rparr>)))"

subsection \<open>\<^verbatim>\<open>Send\<close>\<close>

text \<open>
  \<^verbatim>\<open>time.Since(c.start).Nanoseconds()\<close> at the wall-clock time \<open>now\<close>: a \<^verbatim>\<open>Duration\<close> is an
  \<^verbatim>\<open>int64\<close>, and \<^verbatim>\<open>Time.Sub\<close> saturates.
\<close>

definition Since :: "int \<Rightarrow> int \<Rightarrow> i64" where
  "Since t0 now = word_of_int (max (- (2 ^ 63)) (min (2 ^ 63 - 1) (now - t0)))"

text \<open>\<^verbatim>\<open>write := atomic.AddUint64(&c.write, 1) - 1\<close>\<close>

definition Send_reserve :: "'a ChanFoo \<Rightarrow> 'a ChanFoo \<times> u64" where
  "Send_reserve c = (c\<lparr>write_c := write_c c + 1\<rparr>, write_c c)"

text \<open>\<^verbatim>\<open>for write >= atomic.LoadUint64(&c.end) { if !c.slideBuffer() { return } }\<close>\<close>

partial_function (option) Send_full :: "'a ChanFoo \<Rightarrow> u64 \<Rightarrow> ('a ChanFoo \<times> bool) res" where
  "Send_full c w =
     (if end_c c \<le> w
      then Option.bind (slideBuffer c) (\<lambda>r.
             case r of
               Inl p \<Rightarrow> Some (Inl p)
             | Inr (c', more_data) \<Rightarrow> if more_data then Send_full c' w else Some (Inr (c', False)))
      else Some (Inr (c, True)))"

text \<open>The rest of \<^verbatim>\<open>Send\<close>, for the reserved index \<open>w\<close>.\<close>

definition Send_publish :: "'a ChanFoo \<Rightarrow> u64 \<Rightarrow> 'a \<Rightarrow> int \<Rightarrow> 'a ChanFoo res" where
  "Send_publish c w v now =
     Option.bind (Send_full c w) (\<lambda>r.
       Some (case r of
               Inl p \<Rightarrow> Inl p
             | Inr (c', go) \<Rightarrow>
                 if \<not> go then Inr c'
                 else
                   let i = unat (w AND mod_c c') in
                   if length (buffer c') \<le> i then Inl IndexOutOfRange
                   else
                     let updated = Since (start c') now in
                     if updated = 0 then Inl ClockFailure
                     else if length (written c') \<le> i then Inl IndexOutOfRange
                     else Inr (c'\<lparr>buffer := (buffer c')[i := v],
                                  written := (written c')[i := push_bit 1 updated + 1]\<rparr>)))"

definition Send :: "'a ChanFoo \<Rightarrow> 'a \<Rightarrow> int \<Rightarrow> 'a ChanFoo res" where
  "Send c v now = (case Send_reserve c of (c1, w) \<Rightarrow> Send_publish c1 w v now)"

subsection \<open>\<^verbatim>\<open>commitData\<close>\<close>

definition published :: "i64 \<Rightarrow> bool" where
  "published x = (x AND 1 = 1)"

lemma published_iff: "published x \<longleftrightarrow> odd x"
  by (simp add: published_def and_one_eq odd_iff_mod_2_eq_one)

lemma published_dec: "published x \<Longrightarrow> \<not> published (x - 1)"
  by (simp add: published_iff)

lemma filter_update_less:
  "i < length xs \<Longrightarrow> P (xs ! i) \<Longrightarrow> \<not> P y \<Longrightarrow>
   length (filter P (xs[i := y])) < length (filter P xs)"
proof (induction xs arbitrary: i)
  case Nil
  then show ?case by simp
next
  case (Cons x xs)
  show ?case
  proof (cases i)
    case 0
    with Cons.prems show ?thesis by (simp add: le_imp_less_Suc)
  next
    case (Suc j)
    with Cons.prems have "length (filter P (xs[j := y])) < length (filter P xs)"
      by (intro Cons.IH) simp_all
    with Suc show ?thesis by simp
  qed
qed

text \<open>
  The loop of \<^verbatim>\<open>commitData\<close>: while the marker of slot \<^verbatim>\<open>newcommit & mod\<close> is odd, clear its
  low bit (\<^verbatim>\<open>AddInt64(.., -1)\<close>), leave by \<^verbatim>\<open>break\<close> when \<^verbatim>\<open>newcommit >= end\<close> (before the
  increment), else go on with \<^verbatim>\<open>newcommit + 1\<close>. It ends because every pass clears one odd
  marker.
\<close>

function commitData_loop ::
  "i64 list \<Rightarrow> u64 \<Rightarrow> u64 \<Rightarrow> u64 \<Rightarrow> panic + i64 list \<times> u64" where
  "commitData_loop wr md en newcommit =
     (let i = unat (newcommit AND md) in
      if length wr \<le> i then Inl IndexOutOfRange
      else if published (wr ! i)
      then (let wr' = wr[i := wr ! i - 1] in
            if en \<le> newcommit then Inr (wr', newcommit)
            else commitData_loop wr' md en (newcommit + 1))
      else Inr (wr, newcommit))"
  by pat_completeness auto
termination
proof (relation "measure (\<lambda>(wr, md, en, newcommit). length (filter published wr))", goal_cases)
  case 1
  show ?case by simp
next
  case (2 wr md en newcommit i wr')
  then show ?case
    by (simp add: filter_update_less published_dec)
qed

text \<open>
  \<^verbatim>\<open>commitData\<close>. The compare-and-swap of \<^verbatim>\<open>commit\<close> compares with the value loaded under the
  committer guard, which nothing has changed since: it succeeds.
\<close>

definition commitData :: "'a ChanFoo \<Rightarrow> panic + 'a ChanFoo \<times> u64" where
  "commitData c =
     (if write_c c \<le> commit c then Inr (c, commit c)
      else if committerActivity c \<noteq> resting then Inr (c, commit c)
      else
        case commitData_loop (written c) (mod_c c) (end_c c) (commit c) of
          Inl p \<Rightarrow> Inl p
        | Inr (wr', newcommit) \<Rightarrow>
            if write_c c < newcommit then Inl CommitRangeError
            else Inr (c\<lparr>written := wr', commit := newcommit, committerActivity := resting\<rparr>,
                      newcommit))"

subsection \<open>\<^verbatim>\<open>NewEndpoint\<close>\<close>

text \<open>\<^verbatim>\<open>for !CompareAndSwap(&e.endpointsActivity, idling, creating) { Gosched() }\<close>\<close>

partial_function (option) NewForChanFoo_spin :: "'a ChanFoo \<Rightarrow> 'a ChanFoo option" where
  "NewForChanFoo_spin c =
     (if endpointsActivity (endpoints c) = idling
      then Some (c\<lparr>endpoints := (endpoints c)\<lparr>endpointsActivity := creating\<rparr>\<rparr>)
      else NewForChanFoo_spin c)"

text \<open>The first index, counted from \<open>i\<close>, of an entry whose cursor is \<^verbatim>\<open>parked\<close>.\<close>

primrec first_parked :: "EndpointFoo list \<Rightarrow> nat \<Rightarrow> nat option" where
  "first_parked [] i = None"
| "first_parked (e # es) i = (if cursor e = parked then Some i else first_parked es (Suc i))"

definition set_entry :: "'a ChanFoo \<Rightarrow> nat \<Rightarrow> EndpointFoo \<Rightarrow> 'a ChanFoo" where
  "set_entry c i e = c\<lparr>endpoints := (endpoints c)\<lparr>entry := (entry (endpoints c))[i := e]\<rparr>\<rparr>"

text \<open>
  The result is the channel and either the error or the index of the endpoint returned.
  The deferred store of \<^verbatim>\<open>idling\<close> is \<open>release\<close>.
\<close>

definition NewForChanFoo ::
  "'a ChanFoo \<Rightarrow> u64 \<Rightarrow> int \<Rightarrow> ('a ChanFoo \<times> (go_error + nat)) res" where
  "NewForChanFoo c keep now =
     Option.bind (NewForChanFoo_spin c) (\<lambda>c0.
       Some (case commitData c0 of
               Inl p \<Rightarrow> Inl p
             | Inr (c1, commit1) \<Rightarrow>
                 let begin1 = begin_c c1;
                     start1 = (if commit1 - begin1 \<le> keep then begin1 else commit1 - keep);
                     es = entry (endpoints c1);
                     n = unat (len (endpoints c1))
                 in
                   if n = length es
                   then (case first_parked es 0 of
                           Some index \<Rightarrow>
                             Inr (release (set_entry c1 index
                                    ((es ! index)\<lparr>cursor := start1,
                                       endpointState := channelState c1,
                                       lastActive := now\<rparr>)),
                                  Inr index)
                         | None \<Rightarrow> Inr (release c1, Inl ErrOutOfEndpoints))
                   else if length es \<le> n then Inl IndexOutOfRange
                   else
                     let c2 = set_entry c1 n
                                ((es ! n)\<lparr>chanRef := True, cursor := start1,
                                   endpointState := channelState c1, lastActive := now\<rparr>)
                     in Inr (release (c2\<lparr>endpoints := (endpoints c2)\<lparr>len := len (endpoints c2) + 1\<rparr>\<rparr>),
                             Inr n)))"

definition NewEndpoint ::
  "'a ChanFoo \<Rightarrow> u64 \<Rightarrow> int \<Rightarrow> ('a ChanFoo \<times> (go_error + nat)) res" where
  "NewEndpoint c keep now = NewForChanFoo c keep now"

subsection \<open>\<^verbatim>\<open>Range\<close> and \<^verbatim>\<open>Cancel\<close>\<close>

text \<open>
  A call of \<^verbatim>\<open>foreach(value, err, closed)\<close> is the triple of its arguments. The callback is
  a function of the calls made before and of the call: any deterministic callback, with state
  of its own or not, is one. The calls are collected in a log.
\<close>

type_synonym 'a call = "'a \<times> go_error \<times> bool"
type_synonym 'a foreach = "'a call list \<Rightarrow> 'a call \<Rightarrow> bool"

text \<open>
  The age test of lines 421 to 428, for the marker \<open>m\<close> of the slot and the reading \<open>since\<close>
  of \<^verbatim>\<open>time.Since(e.start).Nanoseconds()\<close>: \<^verbatim>\<open>>>\<close> on an \<^verbatim>\<open>int64\<close> is the arithmetic shift
  and \<^verbatim>\<open><=\<close> the signed comparison.
\<close>

definition emit :: "i64 \<Rightarrow> i64 \<Rightarrow> i64 \<Rightarrow> bool" where
  "emit maxAge since m =
     (if maxAge \<noteq> 0
      then (let stale = since - maxAge; updated = signed_drop_bit 1 m
            in \<not> (updated \<noteq> 0 \<and> updated \<le>s stale))
      else True)"

lemma cursor_step_less:
  fixes a b :: u64
  assumes "a \<noteq> b"
  shows "unat (b - (a + 1)) < unat (b - a)"
proof -
  have nz: "b - a \<noteq> 0" using assms by simp
  have eq: "b - (a + 1) = b - a - 1" by simp
  have "unat (b - a - 1) = unat (b - a) - 1"
    using nz by (rule unat_minus_one)
  moreover have "0 < unat (b - a)"
    using nz by (simp add: unat_gt_0)
  ultimately show ?thesis
    unfolding eq by arith
qed

text \<open>
  The loop \<^verbatim>\<open>for ; e.cursor != commit; atomic.AddUint64(&e.cursor, 1) { ... }\<close> on the endpoint
  record \<open>e\<close>; the channel is only read. \<open>now k\<close> is the clock when the \<open>k\<close>-th slot of the
  round is handled. The flag of the result says whether \<^verbatim>\<open>Range\<close> returned.
\<close>

function Range_process ::
  "'a ChanFoo \<Rightarrow> 'a foreach \<Rightarrow> i64 \<Rightarrow> (nat \<Rightarrow> int) \<Rightarrow> u64 \<Rightarrow> EndpointFoo \<Rightarrow> nat \<Rightarrow> 'a call list \<Rightarrow>
   panic + EndpointFoo \<times> nat \<times> 'a call list \<times> bool" where
  "Range_process c foreach maxAge now commit1 e k log =
     (if cursor e = commit1 then Inr (e, k, log, False)
      else
        let i = unat (cursor e AND mod_c c) in
        if length (buffer c) \<le> i then Inl IndexOutOfRange
        else if maxAge \<noteq> 0 \<and> length (written c) \<le> i then Inl IndexOutOfRange
        else
          let item = buffer c ! i;
              em = emit maxAge (Since (start c) (now k)) (written c ! i);
              log' = (if em then log @ [(item, None, False)] else log);
              e' = (if em \<and> \<not> foreach log (item, None, False)
                    then e\<lparr>endpointState := canceled\<rparr> else e)
          in
            if endpointState e' = canceled
            then Inr (e'\<lparr>cursor := parked\<rparr>, Suc k, log', True)
            else Range_process c foreach maxAge now commit1
                   (e'\<lparr>cursor := cursor e' + 1\<rparr>) (Suc k) log')"
  by pat_completeness auto
termination
proof (relation "measure (\<lambda>(c, foreach, maxAge, now, commit1, e, k, log). unat (commit1 - cursor e))",
    goal_cases)
  case 1
  show ?case by simp
next
  case (2 c foreach maxAge now commit1 e k log i item em log' e')
  then have "cursor e' = cursor e" and "cursor e \<noteq> commit1"
    by (simp_all split: if_splits)
  then show ?case
    by (simp add: cursor_step_less)
qed

text \<open>
  One pass of the body of the waiting loop (lines 386 to 416), for the endpoint at index
  \<open>i\<close>. \<open>now 0\<close> is the clock at line 396 or 398, \<open>now 1\<close> the clock after
  \<^verbatim>\<open>receivers.Wait()\<close> has returned. The result of the closing call of \<^verbatim>\<open>foreach\<close> is not used.
\<close>

definition Range_wait ::
  "'a::zero ChanFoo \<Rightarrow> nat \<Rightarrow> (nat \<Rightarrow> int) \<Rightarrow> 'a call list \<Rightarrow> panic + 'a ChanFoo \<times> 'a call list \<times> bool" where
  "Range_wait c i now log =
     (let e = entry (endpoints c) ! i in
      if endpointState e = canceled
      then Inr (set_entry c i (e\<lparr>cursor := parked\<rparr>), log, True)
      else if commit c < write_c c
      then (if endpointClosed e = 1 then Inl DataAfterClose
            else Inr (set_entry c i (e\<lparr>lastActive := now 0\<rparr>), log, False))
      else if now 0 < lastActive e + 1000000
      then Inr (if endpointState e = closed then set_entry c i (e\<lparr>endpointClosed := 1\<rparr>) else c,
                log, False)
      else if now 0 < lastActive e + 250000000
      then (if endpointState e = closed
            then Inr (set_entry c i (e\<lparr>cursor := parked\<rparr>), log @ [(0, err c, True)], True)
            else Inr (c, log, False))
      else Inr (set_entry c i (e\<lparr>lastActive := now 1\<rparr>), log, False))"

text \<open>
  \<^verbatim>\<open>Range\<close> is \<^verbatim>\<open>e.lastActive = time.Now()\<close> and then rounds for ever: a round calls
  \<^verbatim>\<open>commitData\<close> and, when the cursor has reached the commit index, runs the waiting body
  once, and otherwise runs the processing loop and stores \<^verbatim>\<open>lastActive\<close>. Both inner loops
  of the source go back to a call of \<^verbatim>\<open>commitData\<close> and this test, so this is its control
  flow. Other goroutines run between rounds.
\<close>

definition Range_enter :: "'a ChanFoo \<Rightarrow> nat \<Rightarrow> int \<Rightarrow> 'a ChanFoo" where
  "Range_enter c i now = set_entry c i ((entry (endpoints c) ! i)\<lparr>lastActive := now\<rparr>)"

definition Range_round ::
  "'a::zero ChanFoo \<Rightarrow> nat \<Rightarrow> 'a foreach \<Rightarrow> i64 \<Rightarrow> (nat \<Rightarrow> int) \<Rightarrow> 'a call list \<Rightarrow>
   panic + 'a ChanFoo \<times> 'a call list \<times> bool" where
  "Range_round c i foreach maxAge now log =
     (if length (entry (endpoints c)) \<le> i then Inl IndexOutOfRange
      else
        case commitData c of
          Inl p \<Rightarrow> Inl p
        | Inr (c1, commit1) \<Rightarrow>
            let e = entry (endpoints c1) ! i in
            if cursor e = commit1 then Range_wait c1 i now log
            else
              (case Range_process c1 foreach maxAge now commit1 e 0 log of
                 Inl p \<Rightarrow> Inl p
               | Inr (e', k, log', returned) \<Rightarrow>
                   if returned then Inr (set_entry c1 i e', log', True)
                   else Inr (set_entry c1 i (e'\<lparr>lastActive := now k\<rparr>), log', False)))"

text \<open>
  The whole of \<^verbatim>\<open>Range\<close> run alone: \<open>clock r\<close> is the clock of round \<open>r\<close>, and
  \<open>clock 0 0\<close> the clock on entry.
\<close>

partial_function (option) Range_rounds ::
  "'a::zero ChanFoo \<Rightarrow> nat \<Rightarrow> 'a foreach \<Rightarrow> i64 \<Rightarrow> (nat \<Rightarrow> nat \<Rightarrow> int) \<Rightarrow> nat \<Rightarrow> 'a call list \<Rightarrow>
   ('a ChanFoo \<times> 'a call list) res" where
  "Range_rounds c i foreach maxAge clock r log =
     (case Range_round c i foreach maxAge (clock r) log of
        Inl p \<Rightarrow> Some (Inl p)
      | Inr (c', log', returned) \<Rightarrow>
          if returned then Some (Inr (c', log'))
          else Range_rounds c' i foreach maxAge clock (Suc r) log')"

definition Range ::
  "'a::zero ChanFoo \<Rightarrow> nat \<Rightarrow> 'a foreach \<Rightarrow> i64 \<Rightarrow> (nat \<Rightarrow> nat \<Rightarrow> int) \<Rightarrow> ('a ChanFoo \<times> 'a call list) res" where
  "Range c i foreach maxAge clock =
     Range_rounds (Range_enter c i (clock 0 0)) i foreach maxAge clock 1 []"

text \<open>\<^verbatim>\<open>atomic.CompareAndSwapUint64(&e.endpointState, active, canceled)\<close>\<close>

definition Cancel :: "'a ChanFoo \<Rightarrow> nat \<Rightarrow> 'a ChanFoo" where
  "Cancel c i =
     (let e = entry (endpoints c) ! i in
      if endpointState e = active then set_entry c i (e\<lparr>endpointState := canceled\<rparr>) else c)"

subsection \<open>Reachable states\<close>

text \<open>
  The states the operations reach from a new channel, one atomic step at a time. A step that
  panics or spins has no successor. \<^verbatim>\<open>Send\<close> is also there in its two parts, so that other
  steps can come between the reservation of an index and its publication; the publication is
  allowed for any index, which only adds states.
\<close>

inductive reachable :: "'a::zero ChanFoo \<Rightarrow> bool" where
  r_new: "reachable (NewChanFoo lg endpointCapacity now)"
| r_FastSend: "reachable c \<Longrightarrow> FastSend c v = Some (Inr c') \<Longrightarrow> reachable c'"
| r_Send: "reachable c \<Longrightarrow> Send c v now = Some (Inr c') \<Longrightarrow> reachable c'"
| r_Send_reserve: "reachable c \<Longrightarrow> Send_reserve c = (c', w) \<Longrightarrow> reachable c'"
| r_Send_publish: "reachable c \<Longrightarrow> Send_publish c w v now = Some (Inr c') \<Longrightarrow> reachable c'"
| r_commitData: "reachable c \<Longrightarrow> commitData c = Inr (c', k) \<Longrightarrow> reachable c'"
| r_slideBuffer: "reachable c \<Longrightarrow> slideBuffer c = Some (Inr (c', m)) \<Longrightarrow> reachable c'"
| r_NewEndpoint: "reachable c \<Longrightarrow> NewEndpoint c keep now = Some (Inr (c', r)) \<Longrightarrow> reachable c'"
| r_Range_enter:
    "reachable c \<Longrightarrow> i < unat (len (endpoints c)) \<Longrightarrow> reachable (Range_enter c i now)"
| r_Range_round:
    "reachable c \<Longrightarrow> i < unat (len (endpoints c)) \<Longrightarrow>
     Range_round c i foreach maxAge clk log = Inr (c', log', returned) \<Longrightarrow> reachable c'"
| r_Cancel: "reachable c \<Longrightarrow> i < unat (len (endpoints c)) \<Longrightarrow> reachable (Cancel c i)"
| r_Close: "reachable c \<Longrightarrow> Close c e = Some (Inr c') \<Longrightarrow> reachable c'"

section \<open>Properties\<close>

subsection \<open>The guard of the endpoint table, and \<^verbatim>\<open>Close\<close>\<close>

lemma Access_spin_idling:
  "endpointsActivity (endpoints c) = idling \<Longrightarrow>
   Access_spin c = Some (c\<lparr>endpoints := (endpoints c)\<lparr>endpointsActivity := enumerating\<rparr>\<rparr>)"
  by (subst Access_spin.simps) simp

lemma Access_spin_Some:
  assumes "Access_spin c = Some c'"
  shows "endpointsActivity (endpoints c) = idling \<and>
         c' = c\<lparr>endpoints := (endpoints c)\<lparr>endpointsActivity := enumerating\<rparr>\<rparr>"
  by (rule Access_spin.raw_induct [OF _ assms]) (auto split: if_splits)

lemma Access_idling:
  "endpointsActivity (endpoints c) = idling \<Longrightarrow>
   Access c f =
     Some (case f (c\<lparr>endpoints := (endpoints c)\<lparr>endpointsActivity := enumerating\<rparr>\<rparr>) of
             Inl p \<Rightarrow> Inl p
           | Inr (c2, r) \<Rightarrow> Inr (release c2, r, True))"
  by (simp add: Access_def Access_spin_idling)

lemma Access_Some:
  assumes "Access c f = Some x"
  shows "endpointsActivity (endpoints c) = idling"
  using assms Access_spin_Some [of c]
  by (cases "Access_spin c") (simp_all add: Access_def)

lemma Close_closed: "channelState c \<noteq> active \<Longrightarrow> Close c e = Some (Inr c)"
  by (simp add: Close_def)

lemma Close_active:
  assumes "channelState c = active" and "endpointsActivity (endpoints c) = idling"
    and "unat (len (endpoints c)) \<le> length (entry (endpoints c))"
  shows "Close c e =
     Some (Inr (c\<lparr>channelState := closed, err := e,
                  endpoints := (endpoints c)\<lparr>entry :=
                    map closeEndpoint (take (unat (len (endpoints c))) (entry (endpoints c))) @
                    drop (unat (len (endpoints c))) (entry (endpoints c))\<rparr>\<rparr>))"
  using assms
  by (simp add: Close_def Access_idling Close_access_def release_def Let_def)

text \<open>
  Claim C8. \<^verbatim>\<open>Close\<close> is idempotent: on an active channel (whose endpoint table idles and
  whose \<^verbatim>\<open>len\<close> is within the table, as in every reachable state) \<^verbatim>\<open>Close(e1)\<close> returns,
  and a following \<^verbatim>\<open>Close(e2)\<close> returns and changes nothing: the state is \<^verbatim>\<open>closed\<close> and
  \<^verbatim>\<open>err\<close> is \<open>e1\<close>. Only the first call moves the state and records the error.
\<close>

theorem Close_idempotent:
  assumes "channelState c = active" and "endpointsActivity (endpoints c) = idling"
    and "unat (len (endpoints c)) \<le> length (entry (endpoints c))"
  shows "\<exists>c1. Close c e1 = Some (Inr c1) \<and> Close c1 e2 = Some (Inr c1) \<and>
              channelState c1 = closed \<and> err c1 = e1"
  using assms by (simp add: Close_active Close_closed)

theorem Close_idempotent_witness:
  "\<exists>c1. Close (NewChanFoo 1 1 0 :: nat ChanFoo) (Some ''bye'') = Some (Inr c1) \<and>
        Close c1 None = Some (Inr c1) \<and> channelState c1 = closed \<and> err c1 = Some ''bye''"
  using Close_idempotent [of "NewChanFoo 1 1 0 :: nat ChanFoo" "Some ''bye''" None]
  by (simp add: NewChanFoo_def)

subsection \<open>\<^verbatim>\<open>NewEndpoint\<close>\<close>

lemma NewForChanFoo_spin_idling:
  "endpointsActivity (endpoints c) = idling \<Longrightarrow>
   NewForChanFoo_spin c = Some (c\<lparr>endpoints := (endpoints c)\<lparr>endpointsActivity := creating\<rparr>\<rparr>)"
  by (subst NewForChanFoo_spin.simps) simp

lemma NewForChanFoo_spin_Some:
  assumes "NewForChanFoo_spin c = Some c'"
  shows "endpointsActivity (endpoints c) = idling \<and>
         c' = c\<lparr>endpoints := (endpoints c)\<lparr>endpointsActivity := creating\<rparr>\<rparr>"
  by (rule NewForChanFoo_spin.raw_induct [OF _ assms]) (auto split: if_splits)

lemma first_parked_Some:
  "first_parked es k = Some j \<Longrightarrow>
   k \<le> j \<and> j - k < length es \<and> cursor (es ! (j - k)) = parked \<and>
   (\<forall>m < j - k. cursor (es ! m) \<noteq> parked)"
proof (induction es arbitrary: k)
  case Nil
  then show ?case by simp
next
  case (Cons e es)
  show ?case
  proof (cases "cursor e = parked")
    case True
    with Cons.prems show ?thesis by simp
  next
    case False
    with Cons.prems have "first_parked es (Suc k) = Some j" by simp
    from Cons.IH [OF this] have ih: "Suc k \<le> j" "j - Suc k < length es"
      "cursor (es ! (j - Suc k)) = parked" "\<forall>m < j - Suc k. cursor (es ! m) \<noteq> parked"
      by simp_all
    from ih(1) have eq: "j - k = Suc (j - Suc k)" by simp
    show ?thesis
      using ih False unfolding eq
      by (auto simp: nth_Cons less_Suc_eq_0_disj)
  qed
qed

lemma first_parked_None:
  "first_parked es k = None \<Longrightarrow> \<forall>e \<in> set es. cursor e \<noteq> parked"
  by (induction es arbitrary: k) (auto split: if_splits)

lemma start_min:
  fixes commit1 begin1 keep :: u64
  shows "(if commit1 - begin1 \<le> keep then begin1 else commit1 - keep) =
         commit1 - min keep (commit1 - begin1)"
  by (auto simp: min_def)

lemma start_max:
  fixes commit1 begin1 keep :: u64
  assumes "begin1 \<le> commit1"
  shows "uint (if commit1 - begin1 \<le> keep then begin1 else commit1 - keep) =
         max (uint begin1) (uint commit1 - uint keep)"
proof -
  have d: "uint (commit1 - begin1) = uint commit1 - uint begin1"
    using assms by (simp add: uint_minus_simple_alt)
  show ?thesis
  proof (cases "commit1 - begin1 \<le> keep")
    case True
    then have "uint commit1 - uint begin1 \<le> uint keep"
      using d by (simp add: word_le_def)
    then show ?thesis using True by simp
  next
    case False
    then have lt: "uint keep < uint commit1 - uint begin1"
      using d by (simp add: word_le_def not_le)
    have "0 \<le> uint begin1" by simp
    with lt have "uint keep \<le> uint commit1" by linarith
    then have "keep \<le> commit1" by (simp add: word_le_def)
    then have "uint (commit1 - keep) = uint commit1 - uint keep"
      by (simp add: uint_minus_simple_alt)
    with lt False show ?thesis by simp
  qed
qed

lemma start_ReplayAll:
  fixes commit1 begin1 :: u64
  shows "(if commit1 - begin1 \<le> ReplayAll then begin1 else commit1 - ReplayAll) = begin1"
  by (simp add: ReplayAll_def)


lemma release_simps [simp]:
  "entry (endpoints (release c)) = entry (endpoints c)"
  "len (endpoints (release c)) = len (endpoints c)"
  "endpointsActivity (endpoints (release c)) = idling"
  "begin_c (release c) = begin_c c" "end_c (release c) = end_c c"
  "commit (release c) = commit c" "mod_c (release c) = mod_c c"
  "write_c (release c) = write_c c" "buffer (release c) = buffer c"
  "written (release c) = written c" "channelState (release c) = channelState c"
  "err (release c) = err c" "start (release c) = start c"
  "committerActivity (release c) = committerActivity c"
  by (simp_all add: release_def)

lemma set_entry_simps [simp]:
  "entry (endpoints (set_entry c i e)) = (entry (endpoints c))[i := e]"
  "len (endpoints (set_entry c i e)) = len (endpoints c)"
  "endpointsActivity (endpoints (set_entry c i e)) = endpointsActivity (endpoints c)"
  "begin_c (set_entry c i e) = begin_c c" "end_c (set_entry c i e) = end_c c"
  "commit (set_entry c i e) = commit c" "mod_c (set_entry c i e) = mod_c c"
  "write_c (set_entry c i e) = write_c c" "buffer (set_entry c i e) = buffer c"
  "written (set_entry c i e) = written c" "channelState (set_entry c i e) = channelState c"
  "err (set_entry c i e) = err c" "start (set_entry c i e) = start c"
  "committerActivity (set_entry c i e) = committerActivity c"
  by (simp_all add: set_entry_def)

lemma commitData_frame:
  assumes "commitData c = Inr (c', k)"
  shows "k = commit c'" and "begin_c c' = begin_c c" and "end_c c' = end_c c"
    and "mod_c c' = mod_c c" and "endpoints c' = endpoints c" and "write_c c' = write_c c"
    and "buffer c' = buffer c" and "channelState c' = channelState c" and "err c' = err c"
    and "start c' = start c"
  using assms
  by (auto simp: commitData_def split: if_splits sum.splits)

text \<open>What a returning \<^verbatim>\<open>NewEndpoint\<close> has done.\<close>

lemma NewEndpoint_Inr:
  assumes "NewEndpoint c keep now = Some (Inr (c', r))"
  shows "\<exists>c1 commit1.
     endpointsActivity (endpoints c) = idling \<and>
     commitData (c\<lparr>endpoints := (endpoints c)\<lparr>endpointsActivity := creating\<rparr>\<rparr>) = Inr (c1, commit1) \<and>
     (let es = entry (endpoints c1);
          n = unat (len (endpoints c1));
          start1 = (if commit1 - begin_c c1 \<le> keep then begin_c c1 else commit1 - keep)
      in if n = length es
         then (case first_parked es 0 of
                 Some index \<Rightarrow>
                   r = Inr index \<and>
                   c' = release (set_entry c1 index
                          ((es ! index)\<lparr>cursor := start1, endpointState := channelState c1,
                             lastActive := now\<rparr>))
               | None \<Rightarrow> r = Inl ErrOutOfEndpoints \<and> c' = release c1)
         else n < length es \<and> r = Inr n \<and>
              c' = release ((set_entry c1 n
                     ((es ! n)\<lparr>chanRef := True, cursor := start1,
                        endpointState := channelState c1, lastActive := now\<rparr>))
                     \<lparr>endpoints := (endpoints (set_entry c1 n
                        ((es ! n)\<lparr>chanRef := True, cursor := start1,
                           endpointState := channelState c1, lastActive := now\<rparr>)))
                        \<lparr>len := len (endpoints c1) + 1\<rparr>\<rparr>))"
proof -
  from assms obtain c0 where spin: "NewForChanFoo_spin c = Some c0"
    by (cases "NewForChanFoo_spin c") (simp_all add: NewEndpoint_def NewForChanFoo_def)
  from NewForChanFoo_spin_Some [OF spin]
  have idl: "endpointsActivity (endpoints c) = idling"
    and c0: "c0 = c\<lparr>endpoints := (endpoints c)\<lparr>endpointsActivity := creating\<rparr>\<rparr>"
    by simp_all
  from assms spin obtain c1 commit1 where cd: "commitData c0 = Inr (c1, commit1)"
    by (cases "commitData c0") (auto simp: NewEndpoint_def NewForChanFoo_def)
  show ?thesis
    using assms spin cd idl unfolding c0 [symmetric]
    by (auto simp: NewEndpoint_def NewForChanFoo_def Let_def split: option.splits if_splits)
qed

text \<open>The cursor of an endpoint that \<^verbatim>\<open>NewEndpoint\<close> has returned.\<close>

lemma NewEndpoint_Inr_cursor:
  assumes "NewEndpoint c keep now = Some (Inr (c', Inr i))"
  shows "\<exists>c1 commit1.
     commitData (c\<lparr>endpoints := (endpoints c)\<lparr>endpointsActivity := creating\<rparr>\<rparr>) = Inr (c1, commit1) \<and>
     begin_c c1 = begin_c c \<and>
     cursor (entry (endpoints c') ! i) = commit1 - min keep (commit1 - begin_c c) \<and>
     (begin_c c \<le> commit1 \<longrightarrow>
        uint (cursor (entry (endpoints c') ! i)) = max (uint (begin_c c)) (uint commit1 - uint keep)) \<and>
     (keep = ReplayAll \<longrightarrow> cursor (entry (endpoints c') ! i) = begin_c c)"
proof -
  from NewEndpoint_Inr [OF assms] obtain c1 commit1 where
    cd: "commitData (c\<lparr>endpoints := (endpoints c)\<lparr>endpointsActivity := creating\<rparr>\<rparr>) = Inr (c1, commit1)"
    and body: "(let es = entry (endpoints c1);
          n = unat (len (endpoints c1));
          start1 = (if commit1 - begin_c c1 \<le> keep then begin_c c1 else commit1 - keep)
      in if n = length es
         then (case first_parked es 0 of
                 Some index \<Rightarrow>
                   (Inr i :: go_error + nat) = Inr index \<and>
                   c' = release (set_entry c1 index
                          ((es ! index)\<lparr>cursor := start1, endpointState := channelState c1,
                             lastActive := now\<rparr>))
               | None \<Rightarrow> (Inr i :: go_error + nat) = Inl ErrOutOfEndpoints \<and> c' = release c1)
         else n < length es \<and> (Inr i :: go_error + nat) = Inr n \<and>
              c' = release ((set_entry c1 n
                     ((es ! n)\<lparr>chanRef := True, cursor := start1,
                        endpointState := channelState c1, lastActive := now\<rparr>))
                     \<lparr>endpoints := (endpoints (set_entry c1 n
                        ((es ! n)\<lparr>chanRef := True, cursor := start1,
                           endpointState := channelState c1, lastActive := now\<rparr>)))
                        \<lparr>len := len (endpoints c1) + 1\<rparr>\<rparr>))"
    by blast
  have b: "begin_c c1 = begin_c c"
    using commitData_frame(2) [OF cd] by simp
  define start1 where
    "start1 = (if commit1 - begin_c c \<le> keep then begin_c c else commit1 - keep)"
  have cur: "cursor (entry (endpoints c') ! i) = start1"
  proof (cases "unat (len (endpoints c1)) = length (entry (endpoints c1))")
    case True
    with body obtain index where fp: "first_parked (entry (endpoints c1)) 0 = Some index"
      by (cases "first_parked (entry (endpoints c1)) 0") (simp_all add: Let_def)
    from first_parked_Some [OF fp] have "index < length (entry (endpoints c1))" by simp
    with body True fp show ?thesis
      by (simp add: Let_def b start1_def)
  next
    case False
    with body show ?thesis
      by (simp add: Let_def b start1_def release_def set_entry_def)
  qed
  have m: "start1 = commit1 - min keep (commit1 - begin_c c)"
    unfolding start1_def by (rule start_min)
  have x: "begin_c c \<le> commit1 \<Longrightarrow> uint start1 = max (uint (begin_c c)) (uint commit1 - uint keep)"
    unfolding start1_def by (rule start_max)
  have r: "keep = ReplayAll \<Longrightarrow> start1 = begin_c c"
    unfolding start1_def by (simp add: ReplayAll_def)
  show ?thesis
    using cd b cur m x r by (intro exI [of _ c1] exI [of _ commit1]) simp
qed

text \<open>
  Claim C10. When \<^verbatim>\<open>NewEndpoint\<close> returns an endpoint of a full table (\<^verbatim>\<open>len\<close> equal to the
  capacity), the endpoint is an entry whose cursor was \<^verbatim>\<open>parked\<close>, and the table afterwards
  is the table before with \<^verbatim>\<open>cursor\<close>, \<^verbatim>\<open>endpointState\<close> and \<^verbatim>\<open>lastActive\<close> of that entry
  set anew: the embedded channel pointer and the \<^verbatim>\<open>endpointClosed\<close> latch of the entry, all
  other entries and \<^verbatim>\<open>len\<close> are as before. The witness recycles an entry whose latch was set
  when its previous user saw the channel close.
\<close>

theorem NewEndpoint_recycle_frame:
  assumes "NewEndpoint c keep now = Some (Inr (c', Inr i))"
    and "unat (len (endpoints c)) = length (entry (endpoints c))"
  shows "i < length (entry (endpoints c)) \<and> cursor (entry (endpoints c) ! i) = parked \<and>
     (\<exists>start1. entry (endpoints c') =
        (entry (endpoints c))[i := (entry (endpoints c) ! i)
           \<lparr>cursor := start1, endpointState := channelState c, lastActive := now\<rparr>]) \<and>
     chanRef (entry (endpoints c') ! i) = chanRef (entry (endpoints c) ! i) \<and>
     endpointClosed (entry (endpoints c') ! i) = endpointClosed (entry (endpoints c) ! i) \<and>
     len (endpoints c') = len (endpoints c)"
proof -
  from NewEndpoint_Inr [OF assms(1)] obtain c1 commit1 where
    cd: "commitData (c\<lparr>endpoints := (endpoints c)\<lparr>endpointsActivity := creating\<rparr>\<rparr>) = Inr (c1, commit1)"
    and body: "(let es = entry (endpoints c1);
          n = unat (len (endpoints c1));
          start1 = (if commit1 - begin_c c1 \<le> keep then begin_c c1 else commit1 - keep)
      in if n = length es
         then (case first_parked es 0 of
                 Some index \<Rightarrow>
                   (Inr i :: go_error + nat) = Inr index \<and>
                   c' = release (set_entry c1 index
                          ((es ! index)\<lparr>cursor := start1, endpointState := channelState c1,
                             lastActive := now\<rparr>))
               | None \<Rightarrow> (Inr i :: go_error + nat) = Inl ErrOutOfEndpoints \<and> c' = release c1)
         else n < length es \<and> (Inr i :: go_error + nat) = Inr n \<and>
              c' = release ((set_entry c1 n
                     ((es ! n)\<lparr>chanRef := True, cursor := start1,
                        endpointState := channelState c1, lastActive := now\<rparr>))
                     \<lparr>endpoints := (endpoints (set_entry c1 n
                        ((es ! n)\<lparr>chanRef := True, cursor := start1,
                           endpointState := channelState c1, lastActive := now\<rparr>)))
                        \<lparr>len := len (endpoints c1) + 1\<rparr>\<rparr>))"
    by blast
  have ep: "endpoints c1 = endpoints c\<lparr>endpointsActivity := creating\<rparr>"
    using commitData_frame(5) [OF cd] by simp
  have cs: "channelState c1 = channelState c"
    using commitData_frame(8) [OF cd] by simp
  have es: "entry (endpoints c1) = entry (endpoints c)" and ln: "len (endpoints c1) = len (endpoints c)"
    using ep by simp_all
  from assms(2) have full: "unat (len (endpoints c1)) = length (entry (endpoints c1))"
    by (simp add: es ln)
  with body obtain index where fp: "first_parked (entry (endpoints c1)) 0 = Some index"
    by (cases "first_parked (entry (endpoints c1)) 0") (simp_all add: Let_def)
  from first_parked_Some [OF fp] have idx: "index < length (entry (endpoints c))"
    and pk: "cursor (entry (endpoints c) ! index) = parked"
    by (simp_all add: es)
  from body full fp have i: "i = index"
    and c': "c' = release (set_entry c1 index
         ((entry (endpoints c) ! index)
            \<lparr>cursor := (if commit1 - begin_c c1 \<le> keep then begin_c c1 else commit1 - keep),
             endpointState := channelState c, lastActive := now\<rparr>))"
    by (simp_all add: Let_def es cs)
  show ?thesis
    using idx pk unfolding i c' by (auto simp: es ln)
qed

text \<open>
  The state of a channel of buffer size 2 and endpoint capacity 1 after \<^verbatim>\<open>NewEndpoint(0)\<close>,
  \<^verbatim>\<open>Close(nil)\<close> and two rounds of \<^verbatim>\<open>Range\<close> at 500 ns and at 2 ms: the endpoint has latched
  \<^verbatim>\<open>endpointClosed\<close>, has delivered the close and has parked its cursor.
\<close>

definition drained :: "nat ChanFoo" where
  "drained =
     \<lparr>buffer = [0, 0], begin_c = 0, end_c = 2, commit = 0, mod_c = 1,
      endpoints = \<lparr>entry = [\<lparr>chanRef = True, cursor = parked, endpointState = closed,
                              lastActive = 0, endpointClosed = 1\<rparr>],
                   len = 1, endpointsActivity = idling\<rparr>,
      err = None, channelState = closed, write_c = 0, start = 0, written = [0, 0],
      committerActivity = resting\<rparr>"

lemma replicate_2: "replicate 2 x = [x, x]"
  by (simp add: numeral_2_eq_2)

lemma drained_run:
  "\<exists>c1 c2 c3.
     NewEndpoint (NewChanFoo 1 1 0 :: nat ChanFoo) 0 0 = Some (Inr (c1, Inr 0)) \<and>
     Close c1 None = Some (Inr c2) \<and>
     Range_round c2 0 (\<lambda>log call. True) 0 (\<lambda>k. 500) [] = Inr (c3, [], False) \<and>
     Range_round c3 0 (\<lambda>log call. True) 0 (\<lambda>k. 2000000) [] = Inr (drained, [(0, None, True)], True)"
  by (simp add: NewEndpoint_def NewForChanFoo_def NewForChanFoo_spin_idling NewChanFoo_def
      commitData_def Let_def zeroEndpoint_def Close_def Access_idling Close_access_def
      closeEndpoint_def Range_round_def Range_wait_def drained_def release_def set_entry_def
      replicate_2)

theorem NewEndpoint_recycle_frame_witness:
  "\<exists>c'. NewEndpoint drained 0 9 = Some (Inr (c', Inr 0)) \<and>
        unat (len (endpoints drained)) = length (entry (endpoints drained)) \<and>
        cursor (entry (endpoints drained) ! 0) = parked \<and>
        endpointClosed (entry (endpoints c') ! 0) = 1 \<and>
        endpointState (entry (endpoints c') ! 0) = closed"
proof -
  have "\<exists>c'. NewEndpoint drained 0 9 = Some (Inr (c', Inr 0))"
    by (simp add: NewEndpoint_def NewForChanFoo_def NewForChanFoo_spin_idling drained_def
        commitData_def Let_def)
  then obtain c' where e: "NewEndpoint drained 0 9 = Some (Inr (c', Inr 0))"
    by blast
  have f: "unat (len (endpoints drained)) = length (entry (endpoints drained))"
    by (simp add: drained_def)
  from NewEndpoint_recycle_frame [OF e f] show ?thesis
    using e f by (auto simp: drained_def)
qed

text \<open>
  Claim C2. With an endpoint table of capacity 1, an endpoint is created and \<^verbatim>\<open>Cancel\<close> is
  called on it; it never runs \<^verbatim>\<open>Range\<close>. \<^verbatim>\<open>Cancel\<close> leaves the cursor as it is (only
  \<^verbatim>\<open>Range\<close> parks it), so the next \<^verbatim>\<open>NewEndpoint\<close> finds no parked entry and returns
  \<^verbatim>\<open>ErrOutOfEndpoints\<close>.
\<close>

theorem Cancel_then_NewEndpoint_fails:
  "\<exists>c1 c2. NewEndpoint (NewChanFoo 1 1 0 :: nat ChanFoo) 0 0 = Some (Inr (c1, Inr 0)) \<and>
           NewEndpoint (Cancel c1 0) 0 1 = Some (Inr (c2, Inl ErrOutOfEndpoints))"
  by (simp add: NewEndpoint_def NewForChanFoo_def NewForChanFoo_spin_idling NewChanFoo_def
      commitData_def Let_def zeroEndpoint_def Cancel_def release_def set_entry_def parked_def)

subsection \<open>\<^verbatim>\<open>slideBuffer\<close>\<close>

lemma idling_update [simp]:
  "endpointsActivity (endpoints c) = idling \<Longrightarrow>
   c\<lparr>endpoints := (endpoints c)\<lparr>endpointsActivity := idling\<rparr>\<rparr> = c"
  by simp

lemma slideBuffer_idling:
  assumes "endpointsActivity (endpoints c) = idling"
    and "unat (len (endpoints c)) \<le> length (entry (endpoints c))"
  shows "slideBuffer c =
     Some (Inr (let s = slowest (take (unat (len (endpoints c))) (entry (endpoints c))) in
                if begin_c c < s \<and> s \<le> end_c c
                then (if mod_c c < 16
                      then c\<lparr>begin_c := begin_c c + 1, end_c := end_c c + 1\<rparr>
                      else c\<lparr>begin_c := s, end_c := s + mod_c c + 1\<rparr>,
                      \<not> (s = parked \<and> channelState c \<noteq> active))
                else (c, channelState c = active)))"
  using assms
  by (simp add: slideBuffer_def Access_idling slideBuffer_access_def Let_def release_def)

lemma slideBuffer_Some:
  assumes "slideBuffer c = Some r"
  shows "endpointsActivity (endpoints c) = idling"
proof -
  from assms obtain x where "Access c slideBuffer_access = Some x"
    by (cases "Access c slideBuffer_access") (simp_all add: slideBuffer_def)
  then show ?thesis by (rule Access_Some)
qed

lemma slowest_foldl:
  fixes a :: u64
  defines "f \<equiv> \<lambda>s e. if cursor e < s then cursor e else s"
  shows "foldl f a es \<in> insert a (cursor ` set es) \<and> foldl f a es \<le> a \<and>
         (\<forall>e \<in> set es. foldl f a es \<le> cursor e)"
proof (induction es arbitrary: a)
  case Nil
  then show ?case by simp
next
  case (Cons e es)
  let ?b = "f a e"
  have b: "?b \<in> {a, cursor e}" "?b \<le> a" "?b \<le> cursor e"
    by (auto simp: f_def not_less)
  from Cons.IH [of ?b]
  have ih: "foldl f ?b es \<in> insert ?b (cursor ` set es)" "foldl f ?b es \<le> ?b"
    "\<forall>e \<in> set es. foldl f ?b es \<le> cursor e"
    by simp_all
  from ih(1) b(1) have "foldl f ?b es \<in> insert a (cursor ` set (e # es))" by auto
  moreover from ih(2) b(2) have "foldl f ?b es \<le> a" by (rule order_trans)
  moreover from ih(2) b(3) have "foldl f ?b es \<le> cursor e" by (rule order_trans)
  ultimately show ?case using ih(3) by simp
qed

lemma slowest_in: "slowest es \<in> insert parked (cursor ` set es)"
  and slowest_le: "e \<in> set es \<Longrightarrow> slowest es \<le> cursor e"
  using slowest_foldl [of parked es] by (simp_all add: slowest_def)

lemma slowest_Min: "slowest es = Min (insert parked (cursor ` set es))"
proof (rule Min_eqI [symmetric])
  show "finite (insert parked (cursor ` set es))" by simp
  show "slowest es \<in> insert parked (cursor ` set es)" by (rule slowest_in)
  fix y assume "y \<in> insert parked (cursor ` set es)"
  then show "slowest es \<le> y"
    by (auto simp: slowest_le parked_def)
qed

text \<open>
  A channel of buffer size 16 and endpoint capacity 1 after \<^verbatim>\<open>FastSend(7)\<close>, \<^verbatim>\<open>FastSend(8)\<close>
  and \<^verbatim>\<open>NewEndpoint(0)\<close>: the only endpoint stands at cursor 2.
\<close>

definition chan16 :: "nat ChanFoo" where
  "chan16 =
     \<lparr>buffer = 7 # 8 # replicate 14 0, begin_c = 0, end_c = 16, commit = 2, mod_c = 15,
      endpoints = \<lparr>entry = [\<lparr>chanRef = True, cursor = 2, endpointState = active,
                              lastActive = 0, endpointClosed = 0\<rparr>],
                   len = 1, endpointsActivity = idling\<rparr>,
      err = None, channelState = active, write_c = 0, start = 0, written = replicate 16 0,
      committerActivity = resting\<rparr>"

lemma FastSend_full_room: "commit c \<noteq> end_c c \<Longrightarrow> FastSend_full c = Some (Inr (c, True))"
  by (subst FastSend_full.simps) simp

lemma replicate_16: "replicate 16 x = x # x # replicate 14 x"
proof -
  have "(16 :: nat) = Suc (Suc 14)" by simp
  then show ?thesis by (simp only: replicate_Suc)
qed

lemma chan16_run:
  "\<exists>c1 c2. FastSend (NewChanFoo 4 1 0 :: nat ChanFoo) 7 = Some (Inr c1) \<and>
           FastSend c1 8 = Some (Inr c2) \<and>
           NewEndpoint c2 0 0 = Some (Inr (chan16, Inr 0))"
  by (simp add: FastSend_def FastSend_full_room NewChanFoo_def Let_def replicate_16
      NewEndpoint_def NewForChanFoo_def NewForChanFoo_spin_idling commitData_def
      zeroEndpoint_def chan16_def release_def set_entry_def)

text \<open>
  Claim C4, as the code has it. When \<^verbatim>\<open>slideBuffer\<close> finds \<open>begin < slowest \<le> end\<close>, where
  \<open>slowest\<close> is the least of \<^verbatim>\<open>parked\<close> and the cursors of the entries below \<^verbatim>\<open>len\<close>, it
  returns, and it has advanced \<open>begin\<close> and \<open>end\<close> by one each when \<open>N \<le> 16\<close> (the test
  is \<^verbatim>\<open>c.mod < 16\<close>, and \<open>N = mod + 1\<close>), and has set \<open>begin = slowest\<close> and
  \<open>end = slowest + N\<close> otherwise.
\<close>

theorem slideBuffer_window:
  assumes "endpointsActivity (endpoints c) = idling"
    and "unat (len (endpoints c)) \<le> length (entry (endpoints c))"
    and "s = slowest (take (unat (len (endpoints c))) (entry (endpoints c)))"
    and "begin_c c < s" and "s \<le> end_c c"
  shows "s = Min (insert parked (cursor ` set (take (unat (len (endpoints c))) (entry (endpoints c))))) \<and>
     (\<exists>c' m. slideBuffer c = Some (Inr (c', m)) \<and>
        (if unat (mod_c c) + 1 \<le> 16
         then begin_c c' = begin_c c + 1 \<and> end_c c' = end_c c + 1
         else begin_c c' = s \<and> end_c c' = s + (mod_c c + 1)))"
proof -
  have "(unat (mod_c c) + 1 \<le> 16) = (unat (mod_c c) < 16)"
    by arith
  then have m: "(unat (mod_c c) + 1 \<le> 16) = (mod_c c < 16)"
    by (simp add: word_less_nat_alt)
  show ?thesis
    using assms(3-5) unfolding m slideBuffer_idling [OF assms(1,2)]
    by (simp add: slowest_Min Let_def add.assoc)
qed

theorem slideBuffer_window_witness:
  "\<exists>c' m. slideBuffer chan16 = Some (Inr (c', m)) \<and> begin_c c' = 1 \<and> end_c c' = 17"
proof -
  have h1: "endpointsActivity (endpoints chan16) = idling"
    and h2: "unat (len (endpoints chan16)) \<le> length (entry (endpoints chan16))"
    and h3: "2 = slowest (take (unat (len (endpoints chan16))) (entry (endpoints chan16)))"
    and h4: "begin_c chan16 < 2" and h5: "2 \<le> end_c chan16"
    and h6: "unat (mod_c chan16) + 1 \<le> 16"
    and h7: "begin_c chan16 + 1 = 1" "end_c chan16 + 1 = 17"
    by (simp_all add: chan16_def slowest_def parked_def)
  from slideBuffer_window [OF h1 h2 h3 h4 h5] h6 h7 show ?thesis
    by simp
qed

text \<open>
  The window as the claim states it, for the buffer size \<open>N = mod + 1\<close> and the slowest
  cursor \<open>s\<close>: one step when \<open>N < 16\<close>, else a jump to \<open>s\<close>.
\<close>

definition slide_spec :: "'a ChanFoo \<Rightarrow> u64 \<Rightarrow> u64 \<times> u64" where
  "slide_spec c s =
     (if unat (mod_c c) + 1 < 16 then (begin_c c + 1, end_c c + 1) else (s, s + (mod_c c + 1)))"

text \<open>
  Claim C4 as stated fails for \<open>N = 16\<close>: the claim's window there is \<open>(slowest, slowest + N)
  = (2, 18)\<close>, the code's is \<open>(1, 17)\<close>.
\<close>

theorem slideBuffer_16_counterexample:
  "unat (mod_c chan16) + 1 = 16 \<and> slide_spec chan16 2 = (2, 18) \<and>
   slowest (take (unat (len (endpoints chan16))) (entry (endpoints chan16))) = 2 \<and>
   begin_c chan16 < 2 \<and> 2 \<le> end_c chan16 \<and>
   slideBuffer chan16 = Some (Inr (chan16\<lparr>begin_c := 1, end_c := 17\<rparr>, True))"
  by (simp add: slideBuffer_idling chan16_def slowest_def parked_def Let_def slide_spec_def)

subsection \<open>\<^verbatim>\<open>Send\<close> on a closed channel\<close>

lemma Send_full_room: "\<not> end_c c \<le> w \<Longrightarrow> Send_full c w = Some (Inr (c, True))"
  by (subst Send_full.simps) simp

lemma parked_top [simp]: "x \<le> parked"
  by (simp add: parked_def)

lemma parked_le [simp]: "parked \<le> x \<longleftrightarrow> x = parked"
  by (simp add: parked_def word_order.extremum_unique)

lemma less_parked: "x < parked \<longleftrightarrow> x \<noteq> parked"
  by (simp add: parked_def word_order.not_eq_extremum)

lemma parked_neq [simp]: "parked \<noteq> 0" "parked \<noteq> 1" "parked \<noteq> 2" "0 \<noteq> parked" "1 \<noteq> parked"
  "2 \<noteq> parked"
  by (simp_all add: parked_def)

lemma slideBuffer_stuck:
  assumes "endpointsActivity (endpoints c) = idling"
    and "unat (len (endpoints c)) \<le> length (entry (endpoints c))"
    and "\<not> (begin_c c < slowest (take (unat (len (endpoints c))) (entry (endpoints c))) \<and>
            slowest (take (unat (len (endpoints c))) (entry (endpoints c))) \<le> end_c c)"
  shows "slideBuffer c = Some (Inr (c, channelState c = active))"
proof -
  define s where "s = slowest (take (unat (len (endpoints c))) (entry (endpoints c)))"
  have "(begin_c c < s \<and> s \<le> end_c c) = False"
    using assms(3) unfolding s_def by blast
  then show ?thesis
    unfolding slideBuffer_idling [OF assms(1,2)] s_def [symmetric] Let_def
    by (simp only: if_False)
qed

lemma Send_full_closed:
  assumes "channelState c \<noteq> active" and "endpointsActivity (endpoints c) = idling"
    and "unat (len (endpoints c)) \<le> length (entry (endpoints c))"
    and "end_c c \<le> w"
    and "\<not> (begin_c c < slowest (take (unat (len (endpoints c))) (entry (endpoints c))) \<and>
            slowest (take (unat (len (endpoints c))) (entry (endpoints c))) \<le> end_c c)"
  shows "Send_full c w = Some (Inr (c, False))"
  using assms(1,4) slideBuffer_stuck [OF assms(2,3,5)]
  by (subst Send_full.simps) simp

text \<open>
  A channel of buffer size 1 after \<^verbatim>\<open>Send(7)\<close> at 5 ns and \<^verbatim>\<open>Close(nil)\<close>: closed, and full
  with no endpoint to free a slot.
\<close>

definition full1 :: "nat ChanFoo" where
  "full1 =
     \<lparr>buffer = [7], begin_c = 0, end_c = 1, commit = 0, mod_c = 0,
      endpoints = \<lparr>entry = [zeroEndpoint], len = 0, endpointsActivity = idling\<rparr>,
      err = None, channelState = closed, write_c = 1, start = 0, written = [11],
      committerActivity = resting\<rparr>"

lemma Since_small [simp]: "Since 0 5 = 5"
  by (simp add: Since_def)


text \<open>
  A channel of buffer size 2 after \<^verbatim>\<open>Close(nil)\<close>: closed, with room in the window.
\<close>

definition closed2 :: "nat ChanFoo" where
  "closed2 =
     \<lparr>buffer = [0, 0], begin_c = 0, end_c = 2, commit = 0, mod_c = 1,
      endpoints = \<lparr>entry = [zeroEndpoint], len = 0, endpointsActivity = idling\<rparr>,
      err = None, channelState = closed, write_c = 0, start = 0, written = [0, 0],
      committerActivity = resting\<rparr>"

text \<open>A sender that is blocked on a full window returns when the channel is not active.\<close>

lemma Send_closed_full:
  assumes "channelState c \<noteq> active" and "endpointsActivity (endpoints c) = idling"
    and "unat (len (endpoints c)) \<le> length (entry (endpoints c))"
    and "end_c c \<le> write_c c"
    and "\<not> (begin_c c < slowest (take (unat (len (endpoints c))) (entry (endpoints c))) \<and>
            slowest (take (unat (len (endpoints c))) (entry (endpoints c))) \<le> end_c c)"
  shows "Send c v now = Some (Inr (c\<lparr>write_c := write_c c + 1\<rparr>))"
proof -
  let ?c1 = "c\<lparr>write_c := write_c c + 1\<rparr>"
  have "Send_full ?c1 (write_c c) = Some (Inr (?c1, False))"
    using assms by (intro Send_full_closed) simp_all
  then show ?thesis
    by (simp add: Send_def Send_reserve_def Send_publish_def)
qed

lemma Send_full_slide:
  assumes "endpointsActivity (endpoints c) = idling"
    and "unat (len (endpoints c)) \<le> length (entry (endpoints c))"
    and "s = slowest (take (unat (len (endpoints c))) (entry (endpoints c)))"
    and "end_c c \<le> w" and "begin_c c < s" and "s \<le> end_c c"
    and "slid = (if mod_c c < 16 then c\<lparr>begin_c := begin_c c + 1, end_c := end_c c + 1\<rparr>
                 else c\<lparr>begin_c := s, end_c := s + mod_c c + 1\<rparr>)"
  shows "Send_full c w =
     (if s = parked \<and> channelState c \<noteq> active then Some (Inr (slid, False)) else Send_full slid w)"
  using assms(3-7)
  by (subst Send_full.simps) (simp add: slideBuffer_idling [OF assms(1,2)] Let_def)

text \<open>
  Claim C3, as the code has it. \<^verbatim>\<open>Send\<close> does not look at \<^verbatim>\<open>channelState\<close> itself; only
  \<^verbatim>\<open>slideBuffer\<close> does, and only when it could not move the window. On a channel that is not
  active, whose endpoint table idles, \<^verbatim>\<open>Send(v)\<close> reserves the index \<open>w = write\<close> (the channel
  with \<^verbatim>\<open>write\<close> incremented is \<open>c1\<close>) and then:
  \<^item> when \<open>w < end\<close>, it does what it does on an active channel: it panics when the slot index
    is out of range or the clock reading \<open>t\<close> is 0, and else stores \<open>v\<close> in
    \<^verbatim>\<open>buffer[w & mod]\<close> and \<open>(t << 1) + 1\<close> in \<^verbatim>\<open>written[w & mod]\<close>;
  \<^item> when \<open>end \<le> w\<close> and the window cannot slide, it returns without error and has touched
    neither the buffer nor the markers nor \<^verbatim>\<open>commit\<close>;
  \<^item> when \<open>end \<le> w\<close> and the window can slide, the window slides, and \<^verbatim>\<open>Send\<close> goes on from
    the new window with the same index (it returns at once when the slowest cursor is
    \<^verbatim>\<open>parked\<close>).
\<close>

theorem Send_on_closed:
  assumes closed: "channelState c \<noteq> active"
    and idle: "endpointsActivity (endpoints c) = idling"
    and len: "unat (len (endpoints c)) \<le> length (entry (endpoints c))"
    and w: "w = write_c c" and c1: "c1 = c\<lparr>write_c := w + 1\<rparr>"
    and i: "i = unat (w AND mod_c c)" and t: "t = Since (start c) now"
    and s: "s = slowest (take (unat (len (endpoints c))) (entry (endpoints c)))"
    and slid: "slid = (if mod_c c < 16 then c1\<lparr>begin_c := begin_c c + 1, end_c := end_c c + 1\<rparr>
                       else c1\<lparr>begin_c := s, end_c := s + mod_c c + 1\<rparr>)"
  shows "(w < end_c c \<longrightarrow>
            Send c v now =
              Some (if length (buffer c) \<le> i then Inl IndexOutOfRange
                    else if t = 0 then Inl ClockFailure
                    else if length (written c) \<le> i then Inl IndexOutOfRange
                    else Inr (c1\<lparr>buffer := (buffer c)[i := v],
                                 written := (written c)[i := push_bit 1 t + 1]\<rparr>))) \<and>
         (end_c c \<le> w \<and> \<not> (begin_c c < s \<and> s \<le> end_c c) \<longrightarrow>
            Send c v now = Some (Inr c1)) \<and>
         (end_c c \<le> w \<and> begin_c c < s \<and> s \<le> end_c c \<longrightarrow>
            Send c v now = (if s = parked then Some (Inr slid) else Send_publish slid w v now))"
proof (intro conjI impI)
  assume "w < end_c c"
  then have "\<not> end_c c1 \<le> w" by (simp add: c1 not_le)
  then have "Send_full c1 w = Some (Inr (c1, True))" by (rule Send_full_room)
  then show "Send c v now =
              Some (if length (buffer c) \<le> i then Inl IndexOutOfRange
                    else if t = 0 then Inl ClockFailure
                    else if length (written c) \<le> i then Inl IndexOutOfRange
                    else Inr (c1\<lparr>buffer := (buffer c)[i := v],
                                 written := (written c)[i := push_bit 1 t + 1]\<rparr>))"
    by (simp add: Send_def Send_reserve_def Send_publish_def w [symmetric] c1 [symmetric] Let_def)
      (simp add: c1 i t)
next
  assume a: "end_c c \<le> w \<and> \<not> (begin_c c < s \<and> s \<le> end_c c)"
  have "Send c v now = Some (Inr (c\<lparr>write_c := write_c c + 1\<rparr>))"
    using closed idle len a unfolding w s by (intro Send_closed_full) simp_all
  then show "Send c v now = Some (Inr c1)" by (simp add: c1 w)
next
  assume a: "end_c c \<le> w \<and> begin_c c < s \<and> s \<le> end_c c"
  have "Send_full c1 w =
     (if s = parked \<and> channelState c1 \<noteq> active then Some (Inr (slid, False)) else Send_full slid w)"
    using a idle len s slid by (intro Send_full_slide) (simp_all add: c1)
  then have "Send_full c1 w = (if s = parked then Some (Inr (slid, False)) else Send_full slid w)"
    using closed by (simp add: c1)
  then show "Send c v now = (if s = parked then Some (Inr slid) else Send_publish slid w v now)"
    by (simp add: Send_def Send_reserve_def Send_publish_def w [symmetric] c1 [symmetric])
qed

lemma Since_zero [simp]: "Since 0 0 = 0"
  by (simp add: Since_def)

theorem Send_on_closed_witness:
  "Send full1 8 9 = Some (Inr (full1\<lparr>write_c := 2\<rparr>)) \<and>
   Send closed2 7 5 = Some (Inr (closed2\<lparr>write_c := 1, buffer := [7, 0], written := [11, 0]\<rparr>)) \<and>
   Send closed2 7 0 = Some (Inl ClockFailure)"
proof -
  have f: "channelState full1 \<noteq> active" "endpointsActivity (endpoints full1) = idling"
    "unat (len (endpoints full1)) \<le> length (entry (endpoints full1))"
    and f2: "end_c full1 \<le> write_c full1 \<and>
       \<not> (begin_c full1 < slowest (take (unat (len (endpoints full1))) (entry (endpoints full1))) \<and>
          slowest (take (unat (len (endpoints full1))) (entry (endpoints full1))) \<le> end_c full1)"
    and f3: "full1\<lparr>write_c := write_c full1 + 1\<rparr> = full1\<lparr>write_c := 2\<rparr>"
    by (simp_all add: full1_def slowest_def)
  have g: "channelState closed2 \<noteq> active" "endpointsActivity (endpoints closed2) = idling"
    "unat (len (endpoints closed2)) \<le> length (entry (endpoints closed2))"
    and g2: "write_c closed2 < end_c closed2"
    by (simp_all add: closed2_def)
  from Send_on_closed [OF f refl refl refl refl refl refl, of 8 9] f2 f3
  have 1: "Send full1 8 9 = Some (Inr (full1\<lparr>write_c := 2\<rparr>))"
    by simp
  from Send_on_closed [OF g refl refl refl refl refl refl, of 7 5] g2
  have 2: "Send closed2 7 5 =
      Some (Inr (closed2\<lparr>write_c := 1, buffer := [7, 0], written := [11, 0]\<rparr>))"
    by (simp add: closed2_def)
  from Send_on_closed [OF g refl refl refl refl refl refl, of 7 0] g2
  have 3: "Send closed2 7 0 = Some (Inl ClockFailure)"
    by (simp add: closed2_def)
  from 1 2 3 show ?thesis by simp
qed

text \<open>
  Claim C3 as stated fails: on a closed channel with room in the window \<^verbatim>\<open>Send(7)\<close> at 5 ns
  stores the value in the buffer and the marker \<open>2 * 5 + 1\<close> in \<^verbatim>\<open>written\<close>.
\<close>

theorem Send_closed_counterexample:
  "Close (NewChanFoo 1 1 0 :: nat ChanFoo) None = Some (Inr closed2) \<and>
   channelState closed2 = closed \<and> buffer closed2 = [0, 0] \<and> written closed2 = [0, 0] \<and>
   Send closed2 7 5 = Some (Inr (closed2\<lparr>buffer := [7, 0], write_c := 1, written := [11, 0]\<rparr>))"
  by (simp add: Send_def Send_reserve_def Send_publish_def Send_full_room NewChanFoo_def Let_def
      Close_def Access_idling Close_access_def release_def closed2_def replicate_2)

subsection \<open>The age filter of \<^verbatim>\<open>Range\<close>\<close>

lemma map_filter_upt_Suc:
  "map f (filter P [0..<Suc n]) =
   (if P 0 then [f 0] else []) @ map (\<lambda>j. f (Suc j)) (filter (\<lambda>j. P (Suc j)) [0..<n])"
proof -
  have "[0..<Suc n] = 0 # map Suc [0..<n]"
    by (simp add: upt_conv_Cons map_Suc_upt del: upt_Suc)
  then show ?thesis
    by (simp add: filter_map o_def del: upt_Suc)
qed

lemma cursor_distance_Suc:
  fixes a b :: u64
  assumes "Suc m = unat (b - a)"
  shows "a \<noteq> b" and "m = unat (b - (a + 1))"
proof -
  show ne: "a \<noteq> b" using assms by auto
  then have nz: "b - a \<noteq> 0" by simp
  have eq: "b - (a + 1) = b - a - 1" by simp
  show "m = unat (b - (a + 1))"
    unfolding eq using assms unat_minus_one [OF nz] by arith
qed

text \<open>The age condition in the words of the claim.\<close>

definition skipped :: "i64 \<Rightarrow> i64 \<Rightarrow> i64 \<Rightarrow> bool" where
  "skipped maxAge since m =
     (maxAge \<noteq> 0 \<and> signed_drop_bit 1 m \<noteq> 0 \<and> signed_drop_bit 1 m \<le>s since - maxAge)"

lemma emit_skipped: "emit maxAge since m = (\<not> skipped maxAge since m)"
  by (simp add: emit_def skipped_def Let_def)

lemma Range_process_run:
  assumes fe: "\<And>lg call. foreach lg call"
  shows "endpointState e \<noteq> canceled \<Longrightarrow> n = unat (commit1 - cursor e) \<Longrightarrow>
     (\<forall>j < n. unat ((cursor e + of_nat j) AND mod_c c) < length (buffer c) \<and>
              unat ((cursor e + of_nat j) AND mod_c c) < length (written c)) \<Longrightarrow>
     Range_process c foreach maxAge now commit1 e k log =
       Inr (e\<lparr>cursor := commit1\<rparr>, k + n,
            log @ map (\<lambda>j. (buffer c ! unat ((cursor e + of_nat j) AND mod_c c), None, False))
                    (filter (\<lambda>j. \<not> skipped maxAge (Since (start c) (now (k + j)))
                                     (written c ! unat ((cursor e + of_nat j) AND mod_c c)))
                       [0..<n]),
            False)"
proof (induction n arbitrary: e k log)
  case 0
  then have "commit1 - cursor e = 0" by (simp add: unat_eq_0)
  then have "cursor e = commit1" by simp
  then have "e\<lparr>cursor := commit1\<rparr> = e" by auto
  with \<open>cursor e = commit1\<close> show ?case by simp
next
  case (Suc m)
  from cursor_distance_Suc [OF Suc.prems(2)]
  have ne: "cursor e \<noteq> commit1" and m: "m = unat (commit1 - (cursor e + 1))"
    by simp_all
  let ?i = "unat (cursor e AND mod_c c)"
  from Suc.prems(3) have i: "?i < length (buffer c)" "?i < length (written c)"
    by (auto dest: spec [of _ 0])
  let ?em = "emit maxAge (Since (start c) (now k)) (written c ! ?i)"
  let ?log = "if ?em then log @ [(buffer c ! ?i, None, False)] else log"
  let ?e = "e\<lparr>cursor := cursor e + 1\<rparr>"
  have step: "Range_process c foreach maxAge now commit1 e k log =
              Range_process c foreach maxAge now commit1 ?e (Suc k) ?log"
    using ne i Suc.prems(1) fe
    by (subst Range_process.simps) (simp add: Let_def)
  have rng: "\<forall>j < m. unat ((cursor ?e + of_nat j) AND mod_c c) < length (buffer c) \<and>
                      unat ((cursor ?e + of_nat j) AND mod_c c) < length (written c)"
  proof (intro allI impI)
    fix j assume "j < m"
    then have "Suc j < Suc m" by simp
    with Suc.prems(3) show "unat ((cursor ?e + of_nat j) AND mod_c c) < length (buffer c) \<and>
                      unat ((cursor ?e + of_nat j) AND mod_c c) < length (written c)"
      by (auto dest!: spec [of _ "Suc j"] simp: add.assoc)
  qed
  have ih: "Range_process c foreach maxAge now commit1 ?e (Suc k) ?log =
       Inr (?e\<lparr>cursor := commit1\<rparr>, Suc k + m,
            ?log @ map (\<lambda>j. (buffer c ! unat ((cursor ?e + of_nat j) AND mod_c c), None, False))
                    (filter (\<lambda>j. \<not> skipped maxAge (Since (start c) (now (Suc k + j)))
                                     (written c ! unat ((cursor ?e + of_nat j) AND mod_c c)))
                       [0..<m]),
            False)"
    using Suc.prems(1) m rng by (intro Suc.IH) simp_all
  show ?case
    unfolding step ih map_filter_upt_Suc
    by (simp add: emit_skipped add.assoc)
qed


text \<open>
  A channel of buffer size 2 after \<^verbatim>\<open>Send(7)\<close> at 10 ns, \<^verbatim>\<open>Send(8)\<close> at 20 ns and
  \<^verbatim>\<open>NewEndpoint(ReplayAll)\<close> at 30 ns: both slots are committed, with the markers 20 and 40.
\<close>

definition aged2 :: "nat ChanFoo" where
  "aged2 =
     \<lparr>buffer = [7, 8], begin_c = 0, end_c = 2, commit = 2, mod_c = 1,
      endpoints = \<lparr>entry = [\<lparr>chanRef = True, cursor = 0, endpointState = active,
                              lastActive = 30, endpointClosed = 0\<rparr>],
                   len = 1, endpointsActivity = idling\<rparr>,
      err = None, channelState = active, write_c = 2, start = 0, written = [20, 40],
      committerActivity = resting\<rparr>"

lemma ReplayAll_top: "x \<le> ReplayAll"
  by (simp add: ReplayAll_def)

lemma not_2_le_1: "\<not> (2 :: u64) \<le> 1"
  by (simp add: word_le_nat_alt)

lemma aged2_run:
  "\<exists>c1 c2. Send (NewChanFoo 1 1 0 :: nat ChanFoo) 7 10 = Some (Inr c1) \<and>
           Send c1 8 20 = Some (Inr c2) \<and>
           NewEndpoint c2 ReplayAll 30 = Some (Inr (aged2, Inr 0))"
  by (simp add: Send_def Send_reserve_def Send_publish_def Send_full_room NewChanFoo_def Let_def
      Since_def replicate_2 NewEndpoint_def NewForChanFoo_def NewForChanFoo_spin_idling
      commitData_def published_def zeroEndpoint_def aged2_def release_def set_entry_def
      ReplayAll_top not_2_le_1)

text \<open>
  Claim C7. Let \<^verbatim>\<open>Range\<close> process the slots from the cursor of the endpoint up to the commit
  index, with a callback that never asks to stop, on an endpoint that is not canceled, and
  let no slot index be out of range. Then the loop ends with the cursor at the commit index
  and has called \<^verbatim>\<open>foreach(item, nil, false)\<close>, in order, for exactly the slots that are not
  \<open>skipped\<close>: those for which \<open>maxAge = 0\<close>, or the marker shifted right by one is zero, or
  it is greater than \<open>nanos_since(start) - maxAge\<close>. So \<open>maxAge = 0\<close> delivers every slot,
  and a slot whose marker is zero is delivered whatever \<open>maxAge\<close> is.
\<close>

theorem Range_age_filter:
  assumes "\<forall>lg call. foreach lg call" and "endpointState e \<noteq> canceled"
    and "n = unat (commit1 - cursor e)"
    and "\<forall>j < n. unat ((cursor e + of_nat j) AND mod_c c) < length (buffer c) \<and>
                 unat ((cursor e + of_nat j) AND mod_c c) < length (written c)"
    and "delivered = filter (\<lambda>j. \<not> skipped maxAge (Since (start c) (now (k + j)))
                                    (written c ! unat ((cursor e + of_nat j) AND mod_c c))) [0..<n]"
  shows "Range_process c foreach maxAge now commit1 e k log =
           Inr (e\<lparr>cursor := commit1\<rparr>, k + n,
                log @ map (\<lambda>j. (buffer c ! unat ((cursor e + of_nat j) AND mod_c c), None, False))
                        delivered,
                False) \<and>
         (maxAge = 0 \<longrightarrow> delivered = [0..<n]) \<and>
         (\<forall>j < n. written c ! unat ((cursor e + of_nat j) AND mod_c c) = 0 \<longrightarrow> j \<in> set delivered)"
proof (intro conjI)
  from assms(1) have fe: "\<And>lg call. foreach lg call" by blast
  show "Range_process c foreach maxAge now commit1 e k log =
           Inr (e\<lparr>cursor := commit1\<rparr>, k + n,
                log @ map (\<lambda>j. (buffer c ! unat ((cursor e + of_nat j) AND mod_c c), None, False))
                        delivered,
                False)"
    unfolding assms(5) using assms(2-4) by (rule Range_process_run [OF fe])
  show "maxAge = 0 \<longrightarrow> delivered = [0..<n]"
    unfolding assms(5) by (simp add: skipped_def)
  show "\<forall>j < n. written c ! unat ((cursor e + of_nat j) AND mod_c c) = 0 \<longrightarrow> j \<in> set delivered"
    unfolding assms(5) by (simp add: skipped_def)
qed

theorem Range_age_filter_witness:
  "Range_process aged2 (\<lambda>lg call. True) 985 (\<lambda>j. 1000) 2 (entry (endpoints aged2) ! 0) 0 [] =
     Inr ((entry (endpoints aged2) ! 0)\<lparr>cursor := 2\<rparr>, 2, [(8, None, False)], False)"
proof -
  let ?e = "entry (endpoints aged2) ! 0"
  have h: "\<forall>lg call. (\<lambda>lg call. True) (lg :: nat call list) (call :: nat call)"
    "endpointState ?e \<noteq> canceled" "2 = unat (2 - cursor ?e)"
    "\<forall>j < 2. unat ((cursor ?e + of_nat j) AND mod_c aged2) < length (buffer aged2) \<and>
              unat ((cursor ?e + of_nat j) AND mod_c aged2) < length (written aged2)"
    by (simp_all add: aged2_def less_2_cases_iff)
  have u: "[0..<2] = [0, Suc 0]"
    by (simp add: numeral_2_eq_2)
  have d: "[1] = filter (\<lambda>j. \<not> skipped 985 (Since (start aged2) ((\<lambda>j. 1000) (0 + j)))
                    (written aged2 ! unat ((cursor ?e + of_nat j) AND mod_c aged2))) [0..<2]"
    unfolding u by (simp add: aged2_def skipped_def Since_def word_sle_eq)
  from Range_age_filter [OF h d, where log = "[]"] show ?thesis
    by (simp add: aged2_def)
qed

subsection \<open>The cursor of a new endpoint\<close>

lemma first_parked_found:
  "\<exists>e \<in> set es. cursor e = parked \<Longrightarrow> \<exists>index. first_parked es k = Some index"
  using first_parked_None [of es k] by (cases "first_parked es k") auto

lemma NewEndpoint_returns:
  assumes idle: "endpointsActivity (endpoints c) = idling"
    and cd: "commitData (c\<lparr>endpoints := (endpoints c)\<lparr>endpointsActivity := creating\<rparr>\<rparr>) = Inr (c1, commit1)"
    and room: "unat (len (endpoints c)) < length (entry (endpoints c)) \<or>
               unat (len (endpoints c)) = length (entry (endpoints c)) \<and>
               (\<exists>e \<in> set (entry (endpoints c)). cursor e = parked)"
  shows "\<exists>c' i. NewEndpoint c keep now = Some (Inr (c', Inr i))"
proof -
  have ep: "endpoints c1 = endpoints c\<lparr>endpointsActivity := creating\<rparr>"
    using commitData_frame(5) [OF cd] by simp
  then have es: "entry (endpoints c1) = entry (endpoints c)"
    and ln: "len (endpoints c1) = len (endpoints c)"
    by simp_all
  from room show ?thesis
  proof
    assume "unat (len (endpoints c)) < length (entry (endpoints c))"
    then show ?thesis
      by (simp add: NewEndpoint_def NewForChanFoo_def NewForChanFoo_spin_idling [OF idle] cd
          Let_def es ln)
  next
    assume full: "unat (len (endpoints c)) = length (entry (endpoints c)) \<and>
               (\<exists>e \<in> set (entry (endpoints c)). cursor e = parked)"
    then obtain index where "first_parked (entry (endpoints c)) 0 = Some index"
      using first_parked_found by blast
    with full show ?thesis
      by (simp add: NewEndpoint_def NewForChanFoo_def NewForChanFoo_spin_idling [OF idle] cd
          Let_def es ln)
  qed
qed

text \<open>
  A channel of buffer size 4 and endpoint capacity 1 after \<^verbatim>\<open>FastSend\<close> of 7, 8 and 9.
\<close>

definition sent3 :: "nat ChanFoo" where
  "sent3 =
     \<lparr>buffer = [7, 8, 9, 0], begin_c = 0, end_c = 4, commit = 3, mod_c = 3,
      endpoints = \<lparr>entry = [zeroEndpoint], len = 0, endpointsActivity = idling\<rparr>,
      err = None, channelState = active, write_c = 0, start = 0, written = [0, 0, 0, 0],
      committerActivity = resting\<rparr>"



text \<open>
  Claim C6. Let the endpoint table idle, let the call of \<^verbatim>\<open>commitData\<close> that \<^verbatim>\<open>NewEndpoint\<close>
  makes under the \<^verbatim>\<open>creating\<close> guard return \<open>commit1\<close>, and let the table have a free entry
  or, when it is full, a parked one. Then \<^verbatim>\<open>NewEndpoint(keep)\<close> returns an endpoint, and the
  cursor of that endpoint is \<open>commit1 - min keep (commit1 - begin)\<close> in \<^verbatim>\<open>uint64\<close>
  arithmetic; when \<open>begin \<le> commit1\<close> that is the integer \<open>max begin (commit1 - keep)\<close>; and
  for \<open>keep = ReplayAll\<close> it is \<open>begin\<close>. The witness asks for one message of replay after
  three messages: the cursor is 2, where the entry held 0 before.
\<close>

theorem NewEndpoint_start_cursor:
  assumes idle: "endpointsActivity (endpoints c) = idling"
    and cd: "commitData (c\<lparr>endpoints := (endpoints c)\<lparr>endpointsActivity := creating\<rparr>\<rparr>) = Inr (c1, commit1)"
    and room: "unat (len (endpoints c)) < length (entry (endpoints c)) \<or>
               unat (len (endpoints c)) = length (entry (endpoints c)) \<and>
               (\<exists>e \<in> set (entry (endpoints c)). cursor e = parked)"
  shows "\<exists>c' i. NewEndpoint c keep now = Some (Inr (c', Inr i)) \<and>
     cursor (entry (endpoints c') ! i) = commit1 - min keep (commit1 - begin_c c) \<and>
     (begin_c c \<le> commit1 \<longrightarrow>
        uint (cursor (entry (endpoints c') ! i)) = max (uint (begin_c c)) (uint commit1 - uint keep)) \<and>
     (keep = ReplayAll \<longrightarrow> cursor (entry (endpoints c') ! i) = begin_c c)"
proof -
  from NewEndpoint_returns [OF idle cd room] obtain c' i where
    r: "NewEndpoint c keep now = Some (Inr (c', Inr i))"
    by blast
  from NewEndpoint_Inr_cursor [OF r] cd show ?thesis
    using r by (intro exI [of _ c'] exI [of _ i]) auto
qed

theorem NewEndpoint_start_cursor_witness:
  "\<exists>c'. NewEndpoint sent3 1 5 = Some (Inr (c', Inr 0)) \<and>
        cursor (entry (endpoints c') ! 0) = 2 \<and> cursor (entry (endpoints sent3) ! 0) = 0"
proof -
  let ?c0 = "sent3\<lparr>endpoints := (endpoints sent3)\<lparr>endpointsActivity := creating\<rparr>\<rparr>"
  have idle: "endpointsActivity (endpoints sent3) = idling"
    by (simp add: sent3_def)
  have cd: "commitData ?c0 = Inr (?c0, 3)"
    by (simp add: commitData_def sent3_def)
  have room: "unat (len (endpoints sent3)) < length (entry (endpoints sent3)) \<or>
               unat (len (endpoints sent3)) = length (entry (endpoints sent3)) \<and>
               (\<exists>e \<in> set (entry (endpoints sent3)). cursor e = parked)"
    by (simp add: sent3_def)
  have i0: "\<And>c' i. NewEndpoint sent3 1 5 = Some (Inr (c', Inr i)) \<Longrightarrow> i = 0"
    by (simp add: NewEndpoint_def NewForChanFoo_def NewForChanFoo_spin_idling sent3_def
        commitData_def Let_def)
  have m: "(3 :: u64) - min 1 (3 - begin_c sent3) = 2" "cursor (entry (endpoints sent3) ! 0) = 0"
    by (simp_all add: sent3_def min_def word_le_nat_alt zeroEndpoint_def)
  from NewEndpoint_start_cursor [OF idle cd room, of 1 5] obtain c' i where
    r: "NewEndpoint sent3 1 5 = Some (Inr (c', Inr i))"
    and cur: "cursor (entry (endpoints c') ! i) = 3 - min 1 (3 - begin_c sent3)"
    by blast
  from i0 [OF r] r cur m show ?thesis
    by auto
qed

subsection \<open>The counters in the reachable states\<close>

text \<open>The allocated entries of the endpoint table: those below \<^verbatim>\<open>len\<close>.\<close>

definition table :: "'a ChanFoo \<Rightarrow> EndpointFoo list" where
  "table c = take (unat (len (endpoints c))) (entry (endpoints c))"

text \<open>
  The chain \<open>begin \<le> min cursor \<le> commit \<le> end\<close>, the minimum being over the allocated
  entries whose cursor is not \<^verbatim>\<open>parked\<close>.
\<close>

definition window_chain :: "'a ChanFoo \<Rightarrow> bool" where
  "window_chain c =
     (begin_c c \<le> commit c \<and> commit c \<le> end_c c \<and>
      (\<forall>e \<in> set (table c). cursor e \<noteq> parked \<longrightarrow> begin_c c \<le> cursor e \<and> cursor e \<le> commit c))"


text \<open>What every step keeps, whatever the guards are.\<close>

definition chan_inv :: "'a ChanFoo \<Rightarrow> bool" where
  "chan_inv c =
     (end_c c - begin_c c = mod_c c + 1 \<and>
      length (buffer c) = unat (mod_c c + 1) \<and>
      (begin_c c \<le> end_c c \<longrightarrow> window_chain c))"

lemma w_inc_le: "a < b \<Longrightarrow> a + 1 \<le> (b::u64)"
  by unat_arith

lemma w_le_inc: "a < b \<Longrightarrow> a \<le> a + (1::u64)"
  by unat_arith

lemma w_big_slide:
  fixes bg en s n cm :: u64
  shows "bg \<le> en \<Longrightarrow> en - bg = n \<Longrightarrow> bg < s \<Longrightarrow> s \<le> s + n \<Longrightarrow> cm \<le> en \<Longrightarrow> cm \<le> s + n"
  by unat_arith

lemma w_tiny_slide:
  fixes bg en s :: u64
  shows "bg < s \<Longrightarrow> s \<le> en \<Longrightarrow> bg + 1 \<le> en + 1 \<Longrightarrow> en \<le> en + 1"
  by unat_arith

lemma w_start:
  fixes bg cm keep :: u64
  shows "\<not> cm - bg \<le> keep \<Longrightarrow> bg \<le> cm \<Longrightarrow> bg \<le> cm - keep \<and> cm - keep \<le> cm"
  by unat_arith

lemma w_tiny_parked:
  fixes bg :: u64
  assumes "bg < - 1"
  shows "\<not> bg + 1 \<le> (- 1 :: u64) + 1"
proof
  assume "bg + 1 \<le> - 1 + 1"
  then have "bg + 1 = 0" by simp
  then have "bg = - 1" by (simp add: eq_neg_iff_add_eq_0)
  with assms show False by simp
qed

lemma w_big_parked:
  fixes bg en n :: u64
  assumes "en - bg = n" and "bg < - 1" and "en = - 1"
  shows "\<not> (- 1 :: u64) \<le> - 1 + n"
proof
  assume "(- 1 :: u64) \<le> - 1 + n"
  then have "- 1 + n = (- 1 :: u64)" by (simp add: word_order.extremum_unique)
  then have "n = 0" by simp
  with assms(1) have "en = bg" by simp
  with assms(2,3) show False by simp
qed

text \<open>The loop of \<^verbatim>\<open>commitData\<close> keeps the length of \<^verbatim>\<open>written\<close> and stays below \<^verbatim>\<open>end\<close>.\<close>

lemma commitData_loop_bounds:
  "commitData_loop wr md en k = Inr (wr', k') \<Longrightarrow>
   length wr' = length wr \<and> (k \<le> en \<longrightarrow> k \<le> k' \<and> k' \<le> en)"
proof (induction wr md en k rule: commitData_loop.induct)
  case (1 wr md en k)
  let ?i = "unat (k AND md)"
  let ?wr = "wr[?i := wr ! ?i - 1]"
  have unf: "commitData_loop wr md en k =
     (if length wr \<le> ?i then Inl IndexOutOfRange
      else if published (wr ! ?i)
      then (if en \<le> k then Inr (?wr, k) else commitData_loop ?wr md en (k + 1))
      else Inr (wr, k))"
    by (subst commitData_loop.simps) (simp only: Let_def)
  show ?case
  proof (cases "\<not> length wr \<le> ?i \<and> published (wr ! ?i) \<and> \<not> en \<le> k")
    case True
    then have a: "\<not> length wr \<le> ?i" "published (wr ! ?i)" "\<not> en \<le> k"
      by blast+
    from "1.prems" a have rec: "commitData_loop ?wr md en (k + 1) = Inr (wr', k')"
      by (simp only: unf if_False if_True)
    from a(3) have lt: "k < en" by (simp only: not_le)
    from "1.IH" [OF refl a(1) a(2) refl a(3) rec]
    have ih: "length wr' = length wr" "k + 1 \<le> en \<longrightarrow> k + 1 \<le> k' \<and> k' \<le> en"
      by (simp_all del: commitData_loop.simps)
    from lt have "k + 1 \<le> en" by (rule w_inc_le)
    moreover from lt have "k \<le> k + 1" by (rule w_le_inc)
    ultimately show ?thesis using ih by (auto simp del: commitData_loop.simps)
  next
    case False
    with "1.prems" show ?thesis
      unfolding unf by (auto simp del: commitData_loop.simps split: if_splits)
  qed
qed


text \<open>Steps that leave the window alone.\<close>

lemma chan_inv_step:
  assumes i: "chan_inv c"
    and f: "begin_c c' = begin_c c" "end_c c' = end_c c" "mod_c c' = mod_c c"
      "length (buffer c') = length (buffer c)"
    and cm: "begin_c c \<le> end_c c \<Longrightarrow> commit c \<le> end_c c \<Longrightarrow> commit c \<le> commit c' \<and> commit c' \<le> end_c c"
    and tb: "\<And>e. e \<in> set (table c') \<Longrightarrow> cursor e \<noteq> parked \<Longrightarrow> begin_c c \<le> end_c c \<Longrightarrow>
               begin_c c \<le> commit c \<Longrightarrow>
               (\<exists>e0 \<in> set (table c). cursor e0 = cursor e) \<or>
               (begin_c c \<le> cursor e \<and> cursor e \<le> commit c')"
  shows "chan_inv c'"
proof -
  from i have w: "end_c c - begin_c c = mod_c c + 1" "length (buffer c) = unat (mod_c c + 1)"
    by (simp_all add: chan_inv_def)
  have "window_chain c'" if le: "begin_c c \<le> end_c c"
  proof -
    from i le have ch: "window_chain c" by (simp add: chan_inv_def)
    then have b: "begin_c c \<le> commit c" "commit c \<le> end_c c"
      and t: "\<And>e. e \<in> set (table c) \<Longrightarrow> cursor e \<noteq> parked \<Longrightarrow>
                begin_c c \<le> cursor e \<and> cursor e \<le> commit c"
      by (simp_all add: window_chain_def)
    from cm [OF le b(2)] have c: "commit c \<le> commit c'" "commit c' \<le> end_c c"
      by simp_all
    from b(1) c(1) have bc: "begin_c c \<le> commit c'" by (rule order_trans)
    have "begin_c c \<le> cursor e \<and> cursor e \<le> commit c'"
      if e: "e \<in> set (table c')" and np: "cursor e \<noteq> parked" for e
    proof -
      from tb [OF e np le b(1)] show ?thesis
      proof
        assume "\<exists>e0 \<in> set (table c). cursor e0 = cursor e"
        then obtain e0 where e0: "e0 \<in> set (table c)" "cursor e0 = cursor e" by blast
        with np t [of e0] have "begin_c c \<le> cursor e" "cursor e \<le> commit c" by simp_all
        with c(1) show ?thesis by (auto intro: order_trans)
      next
        assume "begin_c c \<le> cursor e \<and> cursor e \<le> commit c'"
        then show ?thesis .
      qed
    qed
    with bc c(2) show ?thesis
      by (simp add: window_chain_def f)
  qed
  with w show ?thesis
    by (simp add: chan_inv_def f)
qed

lemma chan_inv_cong:
  assumes "chan_inv c" and "begin_c c' = begin_c c" "end_c c' = end_c c" "mod_c c' = mod_c c"
    "length (buffer c') = length (buffer c)" "commit c' = commit c" "table c' = table c"
  shows "chan_inv c'"
  using assms by (simp add: chan_inv_def window_chain_def)

lemma table_set_entry:
  assumes "e \<in> set (table (set_entry c i x))"
  shows "e \<in> set (table c) \<or> e = x \<and> i < length (table c)"
proof -
  have "table (set_entry c i x) = (table c)[i := x]"
    by (simp add: table_def take_update_swap)
  with assms have m: "e \<in> set ((table c)[i := x])" by simp
  show ?thesis
  proof (cases "i < length (table c)")
    case True
    have "set ((table c)[i := x]) \<subseteq> insert x (set (table c))"
      by (rule set_update_subset_insert)
    with m True show ?thesis by auto
  next
    case False
    then have "length (table c) \<le> i" by simp
    then have "(table c)[i := x] = table c" by (rule list_update_beyond)
    with m show ?thesis by simp
  qed
qed

lemma table_nth: "i < length (table c) \<Longrightarrow> table c ! i = entry (endpoints c) ! i"
  by (simp add: table_def)

text \<open>A store into an entry of a cursor that is parked, unchanged, or within the chain.\<close>

lemma chan_inv_set_entry:
  assumes i: "chan_inv c"
    and x: "cursor x = parked \<or> cursor x = cursor (entry (endpoints c) ! i) \<or>
            (begin_c c \<le> end_c c \<longrightarrow> begin_c c \<le> cursor x \<and> cursor x \<le> commit c)"
  shows "chan_inv (set_entry c i x)"
proof (rule chan_inv_step [OF i])
  fix e
  assume e: "e \<in> set (table (set_entry c i x))" and np: "cursor e \<noteq> parked"
    and le: "begin_c c \<le> end_c c"
  from table_set_entry [OF e] show "(\<exists>e0 \<in> set (table c). cursor e0 = cursor e) \<or>
     (begin_c c \<le> cursor e \<and> cursor e \<le> commit (set_entry c i x))"
  proof
    assume "e \<in> set (table c)"
    then show ?thesis by blast
  next
    assume a: "e = x \<and> i < length (table c)"
    then have m: "table c ! i \<in> set (table c)" by simp
    from a have n: "table c ! i = entry (endpoints c) ! i" by (simp add: table_nth)
    from x np a le consider "cursor e = cursor (entry (endpoints c) ! i)"
      | "begin_c c \<le> cursor e \<and> cursor e \<le> commit c" by blast
    then show ?thesis
    proof cases
      case 1
      with m n show ?thesis by auto
    next
      case 2
      then show ?thesis by simp
    qed
  qed
qed simp_all


text \<open>What a returning \<^verbatim>\<open>slideBuffer\<close> has done.\<close>

lemma slideBuffer_Inr:
  assumes "slideBuffer c = Some (Inr (c', m))"
  shows "endpointsActivity (endpoints c) = idling"
    and "c' = (let s = slowest (table c) in
               if begin_c c < s \<and> s \<le> end_c c
               then (if mod_c c < 16
                     then c\<lparr>begin_c := begin_c c + 1, end_c := end_c c + 1\<rparr>
                     else c\<lparr>begin_c := s, end_c := s + mod_c c + 1\<rparr>)
               else c)"
proof -
  from assms show idl: "endpointsActivity (endpoints c) = idling"
    by (rule slideBuffer_Some)
  have n: "unat (len (endpoints c)) \<le> length (entry (endpoints c))"
  proof (rule ccontr)
    assume "\<not> unat (len (endpoints c)) \<le> length (entry (endpoints c))"
    then have "slideBuffer c = Some (Inl IndexOutOfRange)"
      by (simp add: slideBuffer_def Access_idling [OF idl] slideBuffer_access_def Let_def)
    with assms show False by simp
  qed
  from assms show "c' = (let s = slowest (table c) in
               if begin_c c < s \<and> s \<le> end_c c
               then (if mod_c c < 16
                     then c\<lparr>begin_c := begin_c c + 1, end_c := end_c c + 1\<rparr>
                     else c\<lparr>begin_c := s, end_c := s + mod_c c + 1\<rparr>)
               else c)"
    unfolding slideBuffer_idling [OF idl n] table_def
    by (auto simp: Let_def split: if_splits)
qed

text \<open>\<^verbatim>\<open>slideBuffer\<close> keeps the invariant: the two branches that move the window.\<close>

lemma slide_tiny_inv:
  assumes i: "chan_inv c" and s: "s = slowest (table c)" and b: "begin_c c < s" and e: "s \<le> end_c c"
  shows "chan_inv (c\<lparr>begin_c := begin_c c + 1, end_c := end_c c + 1\<rparr>)"
proof -
  let ?c = "c\<lparr>begin_c := begin_c c + 1, end_c := end_c c + 1\<rparr>"
  from i have w: "end_c c - begin_c c = mod_c c + 1" "length (buffer c) = unat (mod_c c + 1)"
    by (simp_all add: chan_inv_def)
  from b e have le: "begin_c c \<le> end_c c" by simp
  with i have ch: "window_chain c" by (simp add: chan_inv_def)
  then have cb: "commit c \<le> end_c c"
    and t: "\<And>x. x \<in> set (table c) \<Longrightarrow> cursor x \<noteq> parked \<Longrightarrow> cursor x \<le> commit c"
    by (simp_all add: window_chain_def)
  have tb: "\<And>x y. table (c\<lparr>begin_c := x, end_c := y\<rparr>) = table c" by (simp add: table_def)
  have "window_chain ?c" if g: "begin_c c + 1 \<le> end_c c + 1"
  proof -
    have np: "s \<noteq> parked"
    proof
      assume p: "s = parked"
      with e have "end_c c = - 1" by (simp add: parked_def word_order.extremum_unique)
      moreover from b p have "begin_c c < - 1" by (simp add: parked_def)
      ultimately show False using g w_tiny_parked [of "begin_c c"] by simp
    qed
    from slowest_in [of "table c"] np obtain x where x: "x \<in> set (table c)" "cursor x = s"
      unfolding s by auto
    with np t [of x] have sc: "s \<le> commit c" by simp
    from b have bs: "begin_c c + 1 \<le> s" by (rule w_inc_le)
    from bs sc have 1: "begin_c c + 1 \<le> commit c" by (rule order_trans)
    from b e g have "end_c c \<le> end_c c + 1" by (rule w_tiny_slide)
    with cb have 2: "commit c \<le> end_c c + 1" by (rule order_trans)
    have 3: "begin_c c + 1 \<le> cursor y \<and> cursor y \<le> commit c"
      if y: "y \<in> set (table c)" "cursor y \<noteq> parked" for y
    proof -
      from y(1) have "s \<le> cursor y" unfolding s by (rule slowest_le)
      with bs have "begin_c c + 1 \<le> cursor y" by (rule order_trans)
      with t [OF y] show ?thesis by simp
    qed
    from 1 2 3 show ?thesis by (simp add: window_chain_def tb)
  qed
  with w show ?thesis by (simp add: chan_inv_def)
qed

lemma slide_big_inv:
  assumes i: "chan_inv c" and s: "s = slowest (table c)" and b: "begin_c c < s" and e: "s \<le> end_c c"
  shows "chan_inv (c\<lparr>begin_c := s, end_c := s + mod_c c + 1\<rparr>)"
proof -
  let ?c = "c\<lparr>begin_c := s, end_c := s + mod_c c + 1\<rparr>"
  from i have w: "end_c c - begin_c c = mod_c c + 1" "length (buffer c) = unat (mod_c c + 1)"
    by (simp_all add: chan_inv_def)
  from b e have le: "begin_c c \<le> end_c c" by simp
  with i have ch: "window_chain c" by (simp add: chan_inv_def)
  then have cb: "commit c \<le> end_c c"
    and t: "\<And>x. x \<in> set (table c) \<Longrightarrow> cursor x \<noteq> parked \<Longrightarrow> cursor x \<le> commit c"
    by (simp_all add: window_chain_def)
  have tb: "\<And>x y. table (c\<lparr>begin_c := x, end_c := y\<rparr>) = table c" by (simp add: table_def)
  have a: "s + mod_c c + 1 = s + (mod_c c + 1)" by simp
  have "window_chain ?c" if g: "s \<le> s + (mod_c c + 1)"
  proof -
    have np: "s \<noteq> parked"
    proof
      assume p: "s = parked"
      with e have en: "end_c c = - 1" by (simp add: parked_def word_order.extremum_unique)
      from b p have "begin_c c < - 1" by (simp add: parked_def)
      from w_big_parked [OF w(1) this en] g p show False by (simp add: parked_def)
    qed
    from slowest_in [of "table c"] np obtain x where x: "x \<in> set (table c)" "cursor x = s"
      unfolding s by auto
    with np t [of x] have 1: "s \<le> commit c" by simp
    from le w(1) b g cb have 2: "commit c \<le> s + (mod_c c + 1)" by (rule w_big_slide)
    have 3: "s \<le> cursor y \<and> cursor y \<le> commit c"
      if y: "y \<in> set (table c)" "cursor y \<noteq> parked" for y
    proof -
      from y(1) have "s \<le> cursor y" unfolding s by (rule slowest_le)
      with t [OF y] show ?thesis by simp
    qed
    from 1 2 3 show ?thesis by (simp add: window_chain_def tb a)
  qed
  with w show ?thesis by (simp add: chan_inv_def a)
qed

lemma slideBuffer_inv:
  assumes i: "chan_inv c" and r: "slideBuffer c = Some (Inr (c', m))"
  shows "chan_inv c'"
proof -
  define s where "s = slowest (table c)"
  from slideBuffer_Inr(2) [OF r]
  have c': "c' = (if begin_c c < s \<and> s \<le> end_c c
               then (if mod_c c < 16
                     then c\<lparr>begin_c := begin_c c + 1, end_c := end_c c + 1\<rparr>
                     else c\<lparr>begin_c := s, end_c := s + mod_c c + 1\<rparr>)
               else c)"
    by (simp add: Let_def s_def)
  show ?thesis
  proof (cases "begin_c c < s \<and> s \<le> end_c c")
    case False
    with c' i show ?thesis by auto
  next
    case True
    then have b: "begin_c c < s" and e: "s \<le> end_c c" by simp_all
    show ?thesis
    proof (cases "mod_c c < 16")
      case True
      with c' b e have "c' = c\<lparr>begin_c := begin_c c + 1, end_c := end_c c + 1\<rparr>" by simp
      with slide_tiny_inv [OF i s_def b e] show ?thesis by simp
    next
      case False
      with c' b e have "c' = c\<lparr>begin_c := s, end_c := s + mod_c c + 1\<rparr>" by simp
      with slide_big_inv [OF i s_def b e] show ?thesis by simp
    qed
  qed
qed


text \<open>The waiting loops of \<^verbatim>\<open>FastSend\<close> and \<^verbatim>\<open>Send\<close> only slide the window.\<close>

lemma FastSend_full_inv:
  assumes "FastSend_full c = Some r"
  shows "\<forall>c' go. r = Inr (c', go) \<longrightarrow> chan_inv c \<longrightarrow> chan_inv c' \<and> (go \<longrightarrow> commit c' \<noteq> end_c c')"
proof (rule FastSend_full.raw_induct [OF _ assms], goal_cases)
  case (1 f c r)
  show ?case
  proof (cases "commit c = end_c c")
    case False
    with 1(2) show ?thesis by auto
  next
    case True
    with 1(2) obtain r1 where s: "slideBuffer c = Some r1"
      and k: "(case r1 of Inl p \<Rightarrow> Some (Inl p)
               | Inr (c', more_data) \<Rightarrow> if more_data then f c' else Some (Inr (c', False))) = Some r"
      by (auto simp: bind_eq_Some_conv)
    show ?thesis
    proof (cases r1)
      case (Inl p)
      with k show ?thesis by auto
    next
      case (Inr x)
      obtain c1 m where x: "x = (c1, m)" by (cases x)
      from s Inr x have s': "slideBuffer c = Some (Inr (c1, m))" by simp
      show ?thesis
      proof (cases m)
        case True
        with k Inr x have "f c1 = Some r" by simp
        from 1(1) [OF this] slideBuffer_inv [OF _ s'] show ?thesis by blast
      next
        case False
        with k Inr x have "r = Inr (c1, False)" by simp
        with slideBuffer_inv [OF _ s'] show ?thesis by auto
      qed
    qed
  qed
qed

lemma Send_full_inv:
  assumes "Send_full c w = Some r"
  shows "\<forall>c' go. r = Inr (c', go) \<longrightarrow> chan_inv c \<longrightarrow> chan_inv c'"
proof (rule Send_full.raw_induct [OF _ assms], goal_cases)
  case (1 f c w r)
  show ?case
  proof (cases "end_c c \<le> w")
    case False
    with 1(2) show ?thesis by auto
  next
    case True
    with 1(2) obtain r1 where s: "slideBuffer c = Some r1"
      and k: "(case r1 of Inl p \<Rightarrow> Some (Inl p)
               | Inr (c', more_data) \<Rightarrow> if more_data then f c' w else Some (Inr (c', False))) = Some r"
      by (auto simp: bind_eq_Some_conv)
    show ?thesis
    proof (cases r1)
      case (Inl p)
      with k show ?thesis by auto
    next
      case (Inr x)
      obtain c1 m where x: "x = (c1, m)" by (cases x)
      from s Inr x have s': "slideBuffer c = Some (Inr (c1, m))" by simp
      show ?thesis
      proof (cases m)
        case True
        with k Inr x have "f c1 w = Some r" by simp
        from 1(1) [OF this] slideBuffer_inv [OF _ s'] show ?thesis by blast
      next
        case False
        with k Inr x have "r = Inr (c1, False)" by simp
        with slideBuffer_inv [OF _ s'] show ?thesis by auto
      qed
    qed
  qed
qed

lemma FastSend_inv:
  assumes i: "chan_inv c" and r: "FastSend c v = Some (Inr c')"
  shows "chan_inv c'"
proof -
  from r obtain r1 where f: "FastSend_full c = Some r1"
    and k: "(case r1 of Inl p \<Rightarrow> Inl p
             | Inr (c1, go) \<Rightarrow>
                 if \<not> go then Inr c1
                 else let i = unat (commit c1 AND mod_c c1) in
                      if length (buffer c1) \<le> i then Inl IndexOutOfRange
                      else Inr (c1\<lparr>buffer := (buffer c1)[i := v], commit := commit c1 + 1\<rparr>)) = Inr c'"
    by (auto simp: FastSend_def bind_eq_Some_conv)
  show ?thesis
  proof (cases r1)
    case (Inl p)
    with k show ?thesis by simp
  next
    case (Inr x)
    obtain c1 go where x: "x = (c1, go)" by (cases x)
    from FastSend_full_inv [OF f] Inr x i
    have "chan_inv c1 \<and> (go \<longrightarrow> commit c1 \<noteq> end_c c1)" by blast
    then have i1: "chan_inv c1" and ne: "go \<Longrightarrow> commit c1 \<noteq> end_c c1" by simp_all
    show ?thesis
    proof (cases go)
      case False
      with k Inr x i1 show ?thesis by simp
    next
      case True
      with k Inr x
      have c': "c' = c1\<lparr>buffer := (buffer c1)[unat (commit c1 AND mod_c c1) := v],
                         commit := commit c1 + 1\<rparr>"
        by (simp add: Let_def split: if_splits)
      show ?thesis
      proof (rule chan_inv_step [OF i1])
        assume "commit c1 \<le> end_c c1"
        with ne [OF True] have lt: "commit c1 < end_c c1" by simp
        from w_le_inc [OF lt] w_inc_le [OF lt]
        show "commit c1 \<le> commit c' \<and> commit c' \<le> end_c c1" by (simp add: c')
      next
        fix e
        assume "e \<in> set (table c')"
        then have "e \<in> set (table c1)" by (simp add: c' table_def)
        then show "(\<exists>e0 \<in> set (table c1). cursor e0 = cursor e) \<or>
                   (begin_c c1 \<le> cursor e \<and> cursor e \<le> commit c')"
          by blast
      qed (simp_all add: c')
    qed
  qed
qed

lemma Send_publish_inv:
  assumes i: "chan_inv c" and r: "Send_publish c w v now = Some (Inr c')"
  shows "chan_inv c'"
proof -
  from r obtain r1 where f: "Send_full c w = Some r1"
    and k: "(case r1 of Inl p \<Rightarrow> Inl p
             | Inr (c1, go) \<Rightarrow>
                 if \<not> go then Inr c1
                 else let i = unat (w AND mod_c c1) in
                      if length (buffer c1) \<le> i then Inl IndexOutOfRange
                      else let updated = Since (start c1) now in
                           if updated = 0 then Inl ClockFailure
                           else if length (written c1) \<le> i then Inl IndexOutOfRange
                           else Inr (c1\<lparr>buffer := (buffer c1)[i := v],
                                        written := (written c1)[i := push_bit 1 updated + 1]\<rparr>)) = Inr c'"
    by (auto simp: Send_publish_def bind_eq_Some_conv)
  show ?thesis
  proof (cases r1)
    case (Inl p)
    with k show ?thesis by simp
  next
    case (Inr x)
    obtain c1 go where x: "x = (c1, go)" by (cases x)
    from Send_full_inv [OF f] Inr x i have i1: "chan_inv c1" by blast
    show ?thesis
    proof (cases go)
      case False
      with k Inr x i1 show ?thesis by simp
    next
      case True
      with k Inr x
      have c': "c' = c1\<lparr>buffer := (buffer c1)[unat (w AND mod_c c1) := v],
                         written := (written c1)[unat (w AND mod_c c1) :=
                                       push_bit 1 (Since (start c1) now) + 1]\<rparr>"
        by (simp add: Let_def split: if_splits)
      show ?thesis
        by (rule chan_inv_cong [OF i1]) (simp_all add: c' table_def)
    qed
  qed
qed

lemma Send_reserve_inv:
  assumes i: "chan_inv c" and r: "Send_reserve c = (c', w)"
  shows "chan_inv c'"
proof -
  from r have c': "c' = c\<lparr>write_c := write_c c + 1\<rparr>" by (auto simp: Send_reserve_def)
  show ?thesis
    by (rule chan_inv_cong [OF i]) (simp_all add: c' table_def)
qed

lemma Send_inv:
  assumes i: "chan_inv c" and r: "Send c v now = Some (Inr c')"
  shows "chan_inv c'"
proof -
  obtain c1 w where s: "Send_reserve c = (c1, w)" by (cases "Send_reserve c")
  with r have "Send_publish c1 w v now = Some (Inr c')" by (simp add: Send_def)
  with Send_reserve_inv [OF i s] show ?thesis by (rule Send_publish_inv)
qed

lemma commitData_inv:
  assumes i: "chan_inv c" and r: "commitData c = Inr (c', k)"
  shows "chan_inv c'"
proof (cases "write_c c \<le> commit c \<or> committerActivity c \<noteq> resting")
  case True
  with r have "c' = c" by (auto simp: commitData_def split: if_splits)
  with i show ?thesis by simp
next
  case False
  with r obtain wr' where l: "commitData_loop (written c) (mod_c c) (end_c c) (commit c) = Inr (wr', k)"
    and c': "c' = c\<lparr>written := wr', commit := k, committerActivity := resting\<rparr>"
    by (auto simp: commitData_def split: if_splits sum.splits)
  from commitData_loop_bounds [OF l]
  have b: "commit c \<le> end_c c \<Longrightarrow> commit c \<le> k \<and> k \<le> end_c c" by simp
  show ?thesis
  proof (rule chan_inv_step [OF i])
    assume "commit c \<le> end_c c"
    from b [OF this] show "commit c \<le> commit c' \<and> commit c' \<le> end_c c" by (simp add: c')
  next
    fix e
    assume "e \<in> set (table c')"
    then have "e \<in> set (table c)" by (simp add: c' table_def)
    then show "(\<exists>e0 \<in> set (table c). cursor e0 = cursor e) \<or>
               (begin_c c \<le> cursor e \<and> cursor e \<le> commit c')"
      by blast
  qed (simp_all add: c')
qed

lemma NewChanFoo_inv: "chan_inv (NewChanFoo lg endpointCapacity now)"
  by (simp add: chan_inv_def window_chain_def table_def NewChanFoo_def Let_def)


text \<open>\<^verbatim>\<open>NewEndpoint\<close>: the cursor of the new endpoint is within the chain.\<close>

lemma chan_inv_release: "chan_inv c \<Longrightarrow> chan_inv (release c)"
  by (rule chan_inv_cong) (simp_all add: table_def)

lemma take_update_new:
  assumes m: "m \<le> Suc n" and e: "e \<in> set (take m (es[n := x]))"
  shows "e = x \<or> e \<in> set (take n es)"
proof -
  from m have "set (take m (es[n := x])) \<subseteq> set (take (Suc n) (es[n := x]))"
    by (rule set_take_subset_set_take)
  with e have s: "e \<in> set (take (Suc n) (es[n := x]))" by blast
  show ?thesis
  proof (cases "n < length es")
    case True
    then have "take (Suc n) (es[n := x]) = take n es @ [x]"
      by (simp add: take_Suc_conv_app_nth)
    with s show ?thesis by auto
  next
    case False
    then have l: "length es \<le> n" by simp
    then have "es[n := x] = es" by (rule list_update_beyond)
    with l have "take (Suc n) (es[n := x]) = take n es" by simp
    with s show ?thesis by simp
  qed
qed

lemma unat_inc_le: "unat (x + 1 :: u32) \<le> Suc (unat x)"
  by (simp add: unat_word_ariths)

lemma NewEndpoint_inv:
  assumes i: "chan_inv c" and r: "NewEndpoint c keep now = Some (Inr (c', r))"
  shows "chan_inv c'"
proof -
  let ?c0 = "c\<lparr>endpoints := (endpoints c)\<lparr>endpointsActivity := creating\<rparr>\<rparr>"
  from NewEndpoint_Inr [OF r] obtain c1 commit1 where
    cd: "commitData ?c0 = Inr (c1, commit1)"
    and body: "(let es = entry (endpoints c1);
          n = unat (len (endpoints c1));
          start1 = (if commit1 - begin_c c1 \<le> keep then begin_c c1 else commit1 - keep)
      in if n = length es
         then (case first_parked es 0 of
                 Some index \<Rightarrow>
                   r = Inr index \<and>
                   c' = release (set_entry c1 index
                          ((es ! index)\<lparr>cursor := start1, endpointState := channelState c1,
                             lastActive := now\<rparr>))
               | None \<Rightarrow> r = Inl ErrOutOfEndpoints \<and> c' = release c1)
         else n < length es \<and> r = Inr n \<and>
              c' = release ((set_entry c1 n
                     ((es ! n)\<lparr>chanRef := True, cursor := start1,
                        endpointState := channelState c1, lastActive := now\<rparr>))
                     \<lparr>endpoints := (endpoints (set_entry c1 n
                        ((es ! n)\<lparr>chanRef := True, cursor := start1,
                           endpointState := channelState c1, lastActive := now\<rparr>)))
                        \<lparr>len := len (endpoints c1) + 1\<rparr>\<rparr>))"
    by blast
  have "chan_inv ?c0"
    by (rule chan_inv_cong [OF i]) (simp_all add: table_def)
  then have i1: "chan_inv c1" using cd by (rule commitData_inv)
  have k: "commit1 = commit c1" using cd by (rule commitData_frame(1))
  define start1 where
    "start1 = (if commit1 - begin_c c1 \<le> keep then begin_c c1 else commit1 - keep)"
  define es where "es = entry (endpoints c1)"
  define n where "n = unat (len (endpoints c1))"
  have st: "begin_c c1 \<le> start1 \<and> start1 \<le> commit c1" if le: "begin_c c1 \<le> end_c c1"
  proof -
    from i1 le have "window_chain c1" by (simp add: chan_inv_def)
    then have b: "begin_c c1 \<le> commit1" by (simp add: window_chain_def k)
    show ?thesis
    proof (cases "commit1 - begin_c c1 \<le> keep")
      case True
      with b show ?thesis by (simp add: start1_def k)
    next
      case False
      from w_start [OF False b] False show ?thesis by (simp add: start1_def k)
    qed
  qed
  show ?thesis
  proof (cases "n = length es")
    case True
    show ?thesis
    proof (cases "first_parked es 0")
      case None
      with body True have "c' = release c1" by (simp add: Let_def es_def n_def)
      with i1 show ?thesis by (simp add: chan_inv_release)
    next
      case (Some index)
      with body True
      have c': "c' = release (set_entry c1 index
                  ((es ! index)\<lparr>cursor := start1, endpointState := channelState c1,
                     lastActive := now\<rparr>))"
        by (simp add: Let_def es_def n_def start1_def)
      have "chan_inv (set_entry c1 index
                  ((es ! index)\<lparr>cursor := start1, endpointState := channelState c1,
                     lastActive := now\<rparr>))"
        using st by (intro chan_inv_set_entry [OF i1]) simp
      then show ?thesis unfolding c' by (rule chan_inv_release)
    qed
  next
    case False
    define x where "x = (es ! n)\<lparr>chanRef := True, cursor := start1,
                        endpointState := channelState c1, lastActive := now\<rparr>"
    from body False
    have c': "c' = release ((set_entry c1 n x)
                     \<lparr>endpoints := (endpoints (set_entry c1 n x))
                        \<lparr>len := len (endpoints c1) + 1\<rparr>\<rparr>)"
      by (simp add: Let_def es_def n_def start1_def x_def)
    have tb: "table c' = take (unat (len (endpoints c1) + 1)) (es[n := x])"
      by (simp add: c' table_def es_def)
    show ?thesis
    proof (rule chan_inv_step [OF i1])
      fix e
      assume e: "e \<in> set (table c')" and le: "begin_c c1 \<le> end_c c1"
      have "unat (len (endpoints c1) + 1) \<le> Suc n"
        unfolding n_def by (rule unat_inc_le)
      from take_update_new [OF this e [unfolded tb]]
      have "e = x \<or> e \<in> set (table c1)" by (simp add: table_def es_def n_def)
      then show "(\<exists>e0 \<in> set (table c1). cursor e0 = cursor e) \<or>
                 (begin_c c1 \<le> cursor e \<and> cursor e \<le> commit c')"
      proof
        assume "e = x"
        with st [OF le] show ?thesis by (simp add: x_def c')
      next
        assume "e \<in> set (table c1)"
        then show ?thesis by blast
      qed
    qed (simp_all add: c')
  qed
qed


text \<open>
  \<^verbatim>\<open>Range\<close>: the processing loop leaves the cursor at the commit index it was given, or
  parked.
\<close>

lemma Range_process_cursor:
  "Range_process c foreach maxAge now commit1 e k log = Inr (e', k', log', returned) \<Longrightarrow>
   cursor e' = (if returned then parked else commit1)"
proof (induction c foreach maxAge now commit1 e k log rule: Range_process.induct)
  case (1 c foreach maxAge now commit1 e k log)
  show ?case
  proof (cases "cursor e = commit1")
    case True
    then have "Range_process c foreach maxAge now commit1 e k log = Inr (e, k, log, False)"
      by (subst Range_process.simps) (simp only: refl if_True)
    with "1.prems" True show ?thesis by simp
  next
    case False
    let ?i = "unat (cursor e AND mod_c c)"
    let ?item = "buffer c ! ?i"
    let ?em = "emit maxAge (Since (start c) (now k)) (written c ! ?i)"
    let ?log = "if ?em then log @ [(?item, None, False)] else log"
    let ?e = "if ?em \<and> \<not> foreach log (?item, None, False)
              then e\<lparr>endpointState := canceled\<rparr> else e"
    from False have f: "(cursor e = commit1) = False" by simp
    have unf: "Range_process c foreach maxAge now commit1 e k log =
       (if length (buffer c) \<le> ?i then Inl IndexOutOfRange
        else if maxAge \<noteq> 0 \<and> length (written c) \<le> ?i then Inl IndexOutOfRange
        else if endpointState ?e = canceled
        then Inr (?e\<lparr>cursor := parked\<rparr>, Suc k, ?log, True)
        else Range_process c foreach maxAge now commit1 (?e\<lparr>cursor := cursor ?e + 1\<rparr>)
               (Suc k) ?log)"
      by (subst Range_process.simps) (simp only: f if_False Let_def)
    show ?thesis
    proof (cases "\<not> length (buffer c) \<le> ?i \<and> \<not> (maxAge \<noteq> 0 \<and> length (written c) \<le> ?i) \<and>
                  endpointState ?e \<noteq> canceled")
      case True
      then have a: "\<not> length (buffer c) \<le> ?i" "\<not> (maxAge \<noteq> 0 \<and> length (written c) \<le> ?i)"
        "endpointState ?e \<noteq> canceled"
        by blast+
      then have b: "(length (buffer c) \<le> ?i) = False"
        "(maxAge \<noteq> 0 \<and> length (written c) \<le> ?i) = False"
        "(endpointState ?e = canceled) = False"
        by blast+
      from "1.prems"
      have rec: "Range_process c foreach maxAge now commit1 (?e\<lparr>cursor := cursor ?e + 1\<rparr>)
                   (Suc k) ?log = Inr (e', k', log', returned)"
        by (simp only: unf b if_False)
      from "1.IH" [OF False refl a(1) a(2) refl refl refl refl a(3) rec]
      show ?thesis .
    next
      case False
      with "1.prems" show ?thesis
        unfolding unf by (auto simp del: Range_process.simps split: if_splits)
    qed
  qed
qed

lemma Range_wait_inv:
  assumes i: "chan_inv c" and r: "Range_wait c i now log = Inr (c', log', returned)"
  shows "chan_inv c'"
proof -
  have s: "chan_inv (set_entry c i x)" if "cursor x = parked \<or> cursor x = cursor (entry (endpoints c) ! i)"
    for x
    using that by (intro chan_inv_set_entry [OF i]) blast
  from r i show ?thesis
    by (auto simp: Range_wait_def Let_def s split: if_splits)
qed

lemma Range_round_inv:
  assumes i: "chan_inv c" and r: "Range_round c i foreach maxAge now log = Inr (c', log', returned)"
  shows "chan_inv c'"
proof -
  from r have li: "\<not> length (entry (endpoints c)) \<le> i"
    by (auto simp: Range_round_def split: if_splits)
  with r obtain c1 commit1 where cd: "commitData c = Inr (c1, commit1)"
    by (cases "commitData c") (auto simp: Range_round_def)
  from i cd have i1: "chan_inv c1" by (rule commitData_inv)
  have k: "commit1 = commit c1" using cd by (rule commitData_frame(1))
  let ?e = "entry (endpoints c1) ! i"
  show ?thesis
  proof (cases "cursor ?e = commit1")
    case True
    with r li cd have "Range_wait c1 i now log = Inr (c', log', returned)"
      by (simp add: Range_round_def Let_def)
    with i1 show ?thesis by (rule Range_wait_inv)
  next
    case False
    with r li cd obtain e' k' lg ret where
      p: "Range_process c1 foreach maxAge now commit1 ?e 0 log = Inr (e', k', lg, ret)"
      and c': "c' = (if ret then set_entry c1 i e' else set_entry c1 i (e'\<lparr>lastActive := now k'\<rparr>))"
      by (cases "Range_process c1 foreach maxAge now commit1 ?e 0 log")
         (auto simp: Range_round_def Let_def simp del: Range_process.simps split: if_splits)
    from Range_process_cursor [OF p]
    have cur: "cursor e' = parked \<or> cursor e' = commit c1"
      by (simp add: k split: if_splits)
    have b: "begin_c c1 \<le> commit c1" if "begin_c c1 \<le> end_c c1"
      using i1 that by (simp add: chan_inv_def window_chain_def)
    have "chan_inv (set_entry c1 i x)" if "cursor x = cursor e'" for x
      using cur b that by (intro chan_inv_set_entry [OF i1]) auto
    then show ?thesis unfolding c' by simp
  qed
qed

lemma Range_enter_inv: "chan_inv c \<Longrightarrow> chan_inv (Range_enter c i now)"
  unfolding Range_enter_def by (rule chan_inv_set_entry) simp_all

lemma Cancel_inv: "chan_inv c \<Longrightarrow> chan_inv (Cancel c i)"
  unfolding Cancel_def Let_def by (simp add: chan_inv_set_entry)

text \<open>\<^verbatim>\<open>Close\<close> changes the state of the endpoints, not their cursors.\<close>

lemma cursor_closeEndpoint [simp]: "cursor (closeEndpoint e) = cursor e"
  by (simp add: closeEndpoint_def)

lemma Close_inv:
  assumes i: "chan_inv c" and r: "Close c e = Some (Inr c')"
  shows "chan_inv c'"
proof (cases "channelState c = active")
  case False
  with r have "c' = c" by (simp add: Close_def)
  with i show ?thesis by simp
next
  case True
  let ?c = "c\<lparr>channelState := closed, err := e\<rparr>"
  let ?es = "entry (endpoints c)"
  let ?n = "unat (len (endpoints c))"
  from r True obtain x where "Access ?c Close_access = Some x"
    by (cases "Access ?c Close_access") (simp_all add: Close_def)
  from Access_Some [OF this] have idl: "endpointsActivity (endpoints c) = idling" by simp
  have n: "?n \<le> length ?es"
  proof (rule ccontr)
    assume "\<not> ?n \<le> length ?es"
    with True idl have "Close c e = Some (Inl IndexOutOfRange)"
      by (simp add: Close_def Access_idling Close_access_def Let_def)
    with r show False by simp
  qed
  from r have c': "c' = c\<lparr>channelState := closed, err := e,
                  endpoints := (endpoints c)\<lparr>entry := map closeEndpoint (take ?n ?es) @ drop ?n ?es\<rparr>\<rparr>"
    unfolding Close_active [OF True idl n] by simp
  from n have tb: "table c' = map closeEndpoint (table c)"
    by (simp add: c' table_def)
  show ?thesis
  proof (rule chan_inv_step [OF i])
    fix x
    assume "x \<in> set (table c')"
    then obtain x0 where "x0 \<in> set (table c)" "x = closeEndpoint x0"
      unfolding tb by auto
    then show "(\<exists>e0 \<in> set (table c). cursor e0 = cursor x) \<or>
               (begin_c c \<le> cursor x \<and> cursor x \<le> commit c')"
      by auto
  qed (simp_all add: c')
qed

text \<open>The invariant holds in every reachable state.\<close>

lemma reachable_inv: "reachable c \<Longrightarrow> chan_inv c"
proof (induction rule: reachable.induct)
  case (r_new lg endpointCapacity now)
  show ?case by (rule NewChanFoo_inv)
next
  case (r_FastSend c v c')
  then show ?case by (auto intro: FastSend_inv)
next
  case (r_Send c v now c')
  then show ?case by (auto intro: Send_inv)
next
  case (r_Send_reserve c c' w)
  then show ?case by (auto intro: Send_reserve_inv)
next
  case (r_Send_publish c w v now c')
  then show ?case by (auto intro: Send_publish_inv)
next
  case (r_commitData c c' k)
  then show ?case by (auto intro: commitData_inv)
next
  case (r_slideBuffer c c' m)
  then show ?case by (auto intro: slideBuffer_inv)
next
  case (r_NewEndpoint c keep now c' r)
  then show ?case by (auto intro: NewEndpoint_inv)
next
  case (r_Range_enter c i now)
  then show ?case by (simp add: Range_enter_inv)
next
  case (r_Range_round c i foreach maxAge clk log c' log' returned)
  then show ?case by (auto intro: Range_round_inv)
next
  case (r_Cancel c i)
  then show ?case by (simp add: Cancel_inv)
next
  case (r_Close c e c')
  then show ?case by (auto intro: Close_inv)
qed


text \<open>
  The channel \<open>chan16\<close> is reachable, and so is the channel that \<^verbatim>\<open>slideBuffer\<close> makes of it:
  the window has moved from \<open>(0, 16)\<close> to \<open>(1, 17)\<close>.
\<close>

lemma chan16_reachable: "reachable chan16"
proof -
  from chan16_run obtain c1 c2 where
    1: "FastSend (NewChanFoo 4 1 0 :: nat ChanFoo) 7 = Some (Inr c1)"
    and 2: "FastSend c1 8 = Some (Inr c2)"
    and 3: "NewEndpoint c2 0 0 = Some (Inr (chan16, Inr 0))"
    by blast
  have "reachable (NewChanFoo 4 1 0 :: nat ChanFoo)" by (rule r_new)
  then have "reachable c1" using 1 by (rule r_FastSend)
  then have "reachable c2" using 2 by (rule r_FastSend)
  then show ?thesis using 3 by (rule r_NewEndpoint)
qed

lemma chan16_slid_reachable: "reachable (chan16\<lparr>begin_c := 1, end_c := 17\<rparr>)"
proof -
  have "slideBuffer chan16 = Some (Inr (chan16\<lparr>begin_c := 1, end_c := 17\<rparr>, True))"
    by (simp add: slideBuffer_idling chan16_def slowest_def parked_def Let_def)
  with chan16_reachable show ?thesis by (rule r_slideBuffer)
qed

text \<open>
  Claim C9. In every reachable state \<open>end - begin = N\<close>, where \<open>N\<close> is the size of the
  buffer (and \<open>mod = N - 1\<close>), in \<^verbatim>\<open>uint64\<close> arithmetic. It holds in a new channel, both
  branches of \<^verbatim>\<open>slideBuffer\<close> keep it, and no other step writes \<^verbatim>\<open>begin\<close>, \<^verbatim>\<open>end\<close> or \<^verbatim>\<open>mod\<close> or
  changes the length of the buffer. The witness is a channel of size 16 whose window has
  been moved by \<^verbatim>\<open>slideBuffer\<close>.
\<close>

theorem window_size:
  assumes "reachable c"
  shows "end_c c - begin_c c = of_nat (length (buffer c)) \<and>
         mod_c c + 1 = of_nat (length (buffer c))"
proof -
  from assms have "chan_inv c" by (rule reachable_inv)
  then show ?thesis by (simp add: chan_inv_def)
qed

theorem window_size_witness:
  "reachable (chan16\<lparr>begin_c := 1, end_c := 17\<rparr>) \<and>
   end_c (chan16\<lparr>begin_c := 1, end_c := 17\<rparr>) - begin_c (chan16\<lparr>begin_c := 1, end_c := 17\<rparr>) =
     of_nat (length (buffer (chan16\<lparr>begin_c := 1, end_c := 17\<rparr>))) \<and>
   length (buffer (chan16\<lparr>begin_c := 1, end_c := 17\<rparr>)) = 16"
  using window_size [OF chan16_slid_reachable] chan16_slid_reachable
  by (simp add: chan16_def)











end
